theory Spec2Isabelle
  imports Main "HOL-Library.AList" "HOL-Library.Multiset" "HOL-Library.Product_Lexorder"
    "HOL-Library.List_Lexorder" "HOL-Library.Char_ord"
begin

section \<open>Record decoders\<close>

text \<open>
  The UMLS importer reads pipe-delimited lines. Every record class binds the columns of
  \<^verbatim>\<open>line.split('|')\<close> positionally; a column the line does not have is
  \<^verbatim>\<open>undefined\<close>, modelled as \<open>None\<close>. \<open>js_split\<close> is
  \<^verbatim>\<open>String.prototype.split\<close> with a one-character separator: the empty
  line gives one empty field.
\<close>

fun js_split :: "char \<Rightarrow> string \<Rightarrow> string list" where
  "js_split d [] = [[]]"
| "js_split d (c # cs) =
     (if c = d then [] # js_split d cs
      else (case js_split d cs of [] \<Rightarrow> [[c]] | f # fs \<Rightarrow> (c # f) # fs))"

definition column :: "string list \<Rightarrow> nat \<Rightarrow> string option" where
  "column fs i = (if i < length fs then Some (fs ! i) else None)"

text \<open>
  String conversion of a possibly undefined field, as done by \<^verbatim>\<open>+\<close> on strings and
  by a computed property key.
\<close>

definition jsString :: "string option \<Rightarrow> string" where
  "jsString v = (case v of None \<Rightarrow> ''undefined'' | Some s \<Rightarrow> s)"

record UmlsConcept =
  CUI :: "string option"
  LAT :: "string option"
  TS :: "string option"
  LUI :: "string option"
  STT :: "string option"
  SUI :: "string option"
  ISPREF :: "string option"
  AUI :: "string option"
  SAUI :: "string option"
  SCUI :: "string option"
  SDUI :: "string option"
  SAB :: "string option"
  TTY :: "string option"
  CODE :: "string option"
  STR' :: "string option"
  SRL :: "string option"
  SUPPRESS :: "string option"

definition new_UmlsConcept :: "string \<Rightarrow> UmlsConcept" where
  "new_UmlsConcept line =
     (let f = js_split CHR ''|'' line in
      \<lparr>CUI = column f 0, LAT = column f 1, TS = column f 2, LUI = column f 3,
       STT = column f 4, SUI = column f 5, ISPREF = column f 6, AUI = column f 7,
       SAUI = column f 8, SCUI = column f 9, SDUI = column f 10, SAB = column f 11,
       TTY = column f 12, CODE = column f 13, STR' = column f 14, SRL = column f 15,
       SUPPRESS = column f 16\<rparr>)"

section \<open>Source registry\<close>

text \<open>
  \<^verbatim>\<open>umlsSources\<close> is an object literal, so a lookup by an arbitrary key also finds
  the members inherited from \<^verbatim>\<open>Object.prototype\<close>. Such a member is truthy and has
  neither \<^verbatim>\<open>system\<close>, \<^verbatim>\<open>tty\<close> nor \<^verbatim>\<open>resource\<close>. The field
  \<^verbatim>\<open>resource\<close> of an entry is a CodeSystem constant imported from another module;
  the passes that read it take its \<^verbatim>\<open>property\<close> array as a parameter.
\<close>

record source =
  system :: string
  tty :: "string list"

definition umlsSources :: "(string \<times> source) list" where
  "umlsSources =
     [(''SNOMEDCT_US'', \<lparr>system = ''http://snomed.info/sct'', tty = [''FN'', ''PT'', ''SY'']\<rparr>),
      (''LNC'', \<lparr>system = ''http://loinc.org'',
                 tty = [''LC'', ''LPDN'', ''LA'', ''DN'', ''HC'', ''LN'', ''LG'']\<rparr>),
      (''RXNORM'', \<lparr>system = ''http://www.nlm.nih.gov/research/umls/rxnorm'',
                    tty = [''PSN'', ''MIN'', ''SBD'', ''SCD'', ''SBDG'', ''SCDG'', ''GPCK'', ''SY'']\<rparr>),
      (''CPT'', \<lparr>system = ''http://www.ama-assn.org/go/cpt'',
                 tty = [''PT'', ''HT'', ''POS'', ''MP'', ''GLP'']\<rparr>),
      (''CVX'', \<lparr>system = ''http://hl7.org/fhir/sid/cvx'', tty = [''PT'']\<rparr>),
      (''ICD10PCS'', \<lparr>system = ''http://hl7.org/fhir/sid/icd-10-pcs'', tty = [''PT'', ''HT'']\<rparr>),
      (''ICD10CM'', \<lparr>system = ''http://hl7.org/fhir/sid/icd-10-cm'', tty = [''PT'', ''HT'']\<rparr>)]"

definition objectPrototypeKeys :: "string list" where
  "objectPrototypeKeys =
     [''constructor'', ''__defineGetter__'', ''__defineSetter__'', ''hasOwnProperty'',
      ''__lookupGetter__'', ''__lookupSetter__'', ''isPrototypeOf'', ''propertyIsEnumerable'',
      ''toString'', ''valueOf'', ''__proto__'', ''toLocaleString'']"

datatype lookup = Undefined | Inherited | Own source

definition lookupSource :: "string \<Rightarrow> lookup" where
  "lookupSource k =
     (case map_of umlsSources k of
        Some s \<Rightarrow> Own s
      | None \<Rightarrow> if k \<in> set objectPrototypeKeys then Inherited else Undefined)"

section \<open>Concept pass\<close>

datatype error = TypeError

record Coding =
  code :: "string option"
  display :: "string option"

text \<open>
  The state of the loop of \<^verbatim>\<open>processConcepts\<close>. \<open>counts\<close> and \<open>codings\<close> are
  objects whose entries are later enumerated in insertion order, hence association lists;
  \<open>mappedConcepts\<close> is only read by key. \<open>sent\<close> records the calls of
  \<^verbatim>\<open>sendCodings\<close> in order; the destination is taken to accept every batch.
  Counters are natural numbers.
\<close>

record cstate =
  processed :: nat
  skipped :: nat
  counts :: "(string \<times> nat) list"
  codings :: "(string \<times> Coding list) list"
  mappedConcepts :: "string \<rightharpoonup> UmlsConcept"
  sent :: "(string \<times> Coding list) list"

definition initial :: cstate where
  "initial = \<lparr>processed = 0, skipped = 0, counts = [], codings = [],
              mappedConcepts = Map.empty, sent = []\<rparr>"

definition js_includes :: "string list \<Rightarrow> string option \<Rightarrow> bool" where
  "js_includes xs v = (case v of None \<Rightarrow> False | Some x \<Rightarrow> x \<in> set xs)"

fun indexOf :: "string list \<Rightarrow> string option \<Rightarrow> int" where
  "indexOf [] v = - 1"
| "indexOf (x # xs) v =
     (if v = Some x then 0
      else (let i = indexOf xs v in if i < 0 then - 1 else i + 1))"

text \<open>\<^verbatim>\<open>counts[k] = (counts[k] ?? 0) + 1\<close>\<close>

definition increment :: "string \<Rightarrow> (string \<times> nat) list \<Rightarrow> (string \<times> nat) list" where
  "increment k cs = AList.update k ((case map_of cs k of None \<Rightarrow> 0 | Some n \<Rightarrow> n) + 1) cs"

text \<open>
  Lines 728 to 742: the coding is pushed on the array found under the system (an array is
  truthy even when empty), and the array is sent and replaced by a fresh one when it has
  reached 500 entries.
\<close>

definition pushCoding :: "string \<Rightarrow> Coding \<Rightarrow> cstate \<Rightarrow> cstate" where
  "pushCoding sys coding s =
     (let foundCodings = (case map_of (codings s) sys of
                            Some fc \<Rightarrow> fc @ [coding]
                          | None \<Rightarrow> [coding])
      in if length foundCodings \<ge> 500
         then s\<lparr>sent := sent s @ [(sys, foundCodings)],
                codings := AList.update sys [] (codings s)\<rparr>
         else s\<lparr>codings := AList.update sys foundCodings (codings s)\<rparr>)"

text \<open>Lines 726 to 742, reached when the record has become the winner of its code.\<close>

definition storeWinner :: "source \<Rightarrow> UmlsConcept \<Rightarrow> cstate \<Rightarrow> cstate" where
  "storeWinner src concept s =
     (let s1 = s\<lparr>mappedConcepts :=
                   (mappedConcepts s)(jsString (SAB concept) @ ''|'' @ jsString (CODE concept)
                                      \<mapsto> concept)\<rparr>;
          s2 = pushCoding (system src) \<lparr>code = CODE concept, display = STR' concept\<rparr> s1
      in s2\<lparr>processed := processed s2 + 1\<rparr>)"

text \<open>One iteration of the loop over the lines of MRCONSO.RRF (lines 696 to 742).\<close>

definition conceptStep :: "cstate \<Rightarrow> string \<Rightarrow> error + cstate" where
  "conceptStep s line =
     (let concept = new_UmlsConcept line in
      case lookupSource (jsString (SAB concept)) of
        Undefined \<Rightarrow> Inr s
      | Inherited \<Rightarrow>
          if LAT concept \<noteq> Some ''ENG'' then Inr s else Inl TypeError
      | Own src \<Rightarrow>
          if LAT concept \<noteq> Some ''ENG'' then Inr s
          else if \<not> js_includes (tty src) (TTY concept) then Inr s
          else if SUPPRESS concept \<noteq> Some ''N'' then Inr (s\<lparr>skipped := skipped s + 1\<rparr>)
          else
            (let s1 = s\<lparr>mappedConcepts := (mappedConcepts s)(jsString (AUI concept) \<mapsto> concept)\<rparr>
             in (case mappedConcepts s1 (jsString (SAB concept) @ ''|'' @ jsString (CODE concept)) of
                   Some existingConcept \<Rightarrow>
                     if indexOf (tty src) (TTY concept) \<ge> indexOf (tty src) (TTY existingConcept)
                     then Inr s1
                     else Inr (storeWinner src concept s1)
                 | None \<Rightarrow>
                     Inr (storeWinner src concept
                            (s1\<lparr>counts := increment (system src) (counts s1)\<rparr>)))))"

fun conceptLoop :: "cstate \<Rightarrow> string list \<Rightarrow> error + cstate" where
  "conceptLoop s [] = Inr s"
| "conceptLoop s (line # rest) =
     (case conceptStep s line of Inl e \<Rightarrow> Inl e | Inr s' \<Rightarrow> conceptLoop s' rest)"

text \<open>Lines 745 to 749: every non-empty array left in \<open>codings\<close> is sent, in insertion order.\<close>

definition flushCodings :: "cstate \<Rightarrow> cstate" where
  "flushCodings s = s\<lparr>sent := sent s @ filter (\<lambda>(sys, fc). length fc > 0) (codings s)\<rparr>"

text \<open>
  Lines 750 to 755: the summary is the two totals and the entries of \<open>counts\<close> as sorted by
  \<^verbatim>\<open>sort((l, r) => r[1] - l[1])\<close>, a stable sort by descending count.
\<close>

record summary =
  totalProcessed :: nat
  totalSkipped :: nat
  perSystem :: "(string \<times> nat) list"

definition summaryOf :: "cstate \<Rightarrow> summary" where
  "summaryOf s = \<lparr>totalProcessed = processed s, totalSkipped = skipped s,
                  perSystem = sort_key (\<lambda>(sys, n). - int n) (counts s)\<rparr>"

record conceptResult =
  index :: "string \<rightharpoonup> UmlsConcept"
  batches :: "(string \<times> Coding list) list"
  report :: summary

definition processConcepts :: "string list \<Rightarrow> error + conceptResult" where
  "processConcepts lines =
     (case conceptLoop initial lines of
        Inl e \<Rightarrow> Inl e
      | Inr s \<Rightarrow> Inr \<lparr>index = mappedConcepts s, batches = sent (flushCodings s),
                      report = summaryOf s\<rparr>)"

section \<open>Batches of property assertions\<close>

text \<open>
  The attribute pass and the relationship pass collect assertions in the same way. A CodeSystem
  property is read through its \<^verbatim>\<open>code\<close> and \<^verbatim>\<open>uri\<close> only; \<open>res\<close>
  stands for \<^verbatim>\<open>source.resource.property\<close> of a registry entry (\<open>None\<close> when the
  resource has no such array).
\<close>

record CodeSystemProperty =
  property_code :: "string option"
  property_uri :: "string option"

record Property =
  prop_code :: "string option"
  prop_property :: "string option"
  prop_value :: "string option"

text \<open>
  The loop state of \<^verbatim>\<open>processProperties\<close> and \<^verbatim>\<open>processRelationships\<close>;
  \<open>warnings\<close> records the calls of \<^verbatim>\<open>console.warn\<close>, which only the second makes,
  and \<open>p_sent\<close> the calls of \<^verbatim>\<open>sendProperties\<close>, each with the value passed as
  \<^verbatim>\<open>system\<close> (\<open>None\<close> for undefined) and the batch.
\<close>

record pstate =
  p_processed :: nat
  p_skipped :: nat
  p_counts :: "(string \<times> nat) list"
  properties :: "(string \<times> Property list) list"
  p_sent :: "(string option \<times> Property list) list"
  warnings :: "(string \<times> string \<times> string option) list"

definition p_initial :: pstate where
  "p_initial = \<lparr>p_processed = 0, p_skipped = 0, p_counts = [], properties = [], p_sent = [],
                warnings = []\<rparr>"

text \<open>
  Lines 939 to 951 and 1103 to 1115, with \<open>sys\<close> the value of \<^verbatim>\<open>source.system\<close>. As
  a property key it is converted to a string; the call of \<^verbatim>\<open>sendProperties\<close> receives
  the value itself. The batch that is sent is read back from
  \<^verbatim>\<open>properties[source.system]\<close>: it is the array that was found there and extended in
  place, and it is undefined when no array was found, in which case
  \<^verbatim>\<open>sendProperties\<close> fails on \<^verbatim>\<open>properties.map\<close>.
\<close>

definition pushProperty :: "string option \<Rightarrow> Property \<Rightarrow> pstate \<Rightarrow> error + pstate" where
  "pushProperty sys prop s =
     (let found = map_of (properties s) (jsString sys);
          foundProperties = (case found of Some fp \<Rightarrow> fp @ [prop] | None \<Rightarrow> [prop])
      in if length foundProperties \<ge> 500
         then (case found of
                 Some fp \<Rightarrow> Inr (s\<lparr>p_sent := p_sent s @ [(sys, fp @ [prop])],
                                    properties := AList.update (jsString sys) [] (properties s)\<rparr>)
               | None \<Rightarrow> Inl TypeError)
         else Inr (s\<lparr>properties :=
                      AList.update (jsString sys) foundProperties (properties s)\<rparr>))"

text \<open>
  Lines 958 to 962 and 1122 to 1126: every non-empty array left in \<open>properties\<close> is sent with
  its key as the system.
\<close>

definition flushProperties :: "pstate \<Rightarrow> pstate" where
  "flushProperties s =
     s\<lparr>p_sent := p_sent s @
         map (\<lambda>(key, fp). (Some key, fp)) (filter (\<lambda>(key, fp). length fp > 0) (properties s))\<rparr>"

text \<open>
  \<^verbatim>\<open>source.system\<close> of the looked-up source: an inherited member of the registry has
  none.
\<close>

definition systemOf :: "lookup \<Rightarrow> string option" where
  "systemOf source = (case source of Own src \<Rightarrow> Some (system src) | _ \<Rightarrow> None)"

text \<open>A string value is truthy when it is defined and not empty.\<close>

definition truthy :: "string option \<Rightarrow> bool" where
  "truthy v = (case v of None \<Rightarrow> False | Some x \<Rightarrow> x \<noteq> [])"

text \<open>
  Lines 963 to 970 and 1127 to 1134: the summary of the two passes is the two totals and the
  entries of \<open>counts\<close>, in insertion order, as sorted by
  \<^verbatim>\<open>(l, r) => r[0].split('|', 1)[0].localeCompare(l[0].split('|', 1)[0]) || r[1] - l[1]\<close>.
  \<open>systemPart\<close> is \<^verbatim>\<open>key.split('|', 1)[0]\<close>. The comparator is negative, so that
  \<open>l\<close> comes before \<open>r\<close>, when the system of \<open>l\<close> collates after the system of
  \<open>r\<close>, or the two collate as equals and \<open>l\<close> has the larger count: the entries are
  sorted in descending order of the pair of the system and the count. The sort is stable.
  \<^verbatim>\<open>localeCompare\<close> is taken to compare the collation keys of the two strings, which
  \<open>ck\<close> gives. The stable descending sort is the reverse of the stable ascending sort of
  the reversed list.
\<close>

definition systemPart :: "string \<Rightarrow> string" where
  "systemPart key = hd (js_split CHR ''|'' key)"

definition sortCounts ::
  "(string \<Rightarrow> 'k::linorder) \<Rightarrow> (string \<times> nat) list \<Rightarrow> (string \<times> nat) list" where
  "sortCounts ck cs = rev (sort_key (\<lambda>(key, n). (ck (systemPart key), n)) (rev cs))"

record propertySummary =
  propertiesFound :: nat
  propertiesSkipped :: nat
  perProperty :: "(string \<times> nat) list"

definition summaryOfProperties :: "(string \<Rightarrow> 'k::linorder) \<Rightarrow> pstate \<Rightarrow> propertySummary" where
  "summaryOfProperties ck s =
     \<lparr>propertiesFound = p_processed s, propertiesSkipped = p_skipped s,
      perProperty = sortCounts ck (p_counts s)\<rparr>"

record propertyResult =
  p_batches :: "(string option \<times> Property list) list"
  p_report :: propertySummary

section \<open>Attribute pass\<close>

record UmlsAttribute =
  attr_CUI :: "string option"
  attr_LUI :: "string option"
  attr_SUI :: "string option"
  attr_METAUI :: "string option"
  attr_STYPE :: "string option"
  attr_CODE :: "string option"
  attr_ATUI :: "string option"
  attr_SATUI :: "string option"
  attr_ATN :: "string option"
  attr_SAB :: "string option"
  attr_ATV :: "string option"
  attr_SUPPRESS :: "string option"

definition new_UmlsAttribute :: "string \<Rightarrow> UmlsAttribute" where
  "new_UmlsAttribute line =
     (let f = js_split CHR ''|'' line in
      \<lparr>attr_CUI = column f 0, attr_LUI = column f 1, attr_SUI = column f 2,
       attr_METAUI = column f 3, attr_STYPE = column f 4, attr_CODE = column f 5,
       attr_ATUI = column f 6, attr_SATUI = column f 7, attr_ATN = column f 8,
       attr_SAB = column f 9, attr_ATV = column f 10, attr_SUPPRESS = column f 11\<rparr>)"

definition mappedProperties :: "(string \<times> string) list" where
  "mappedProperties =
     [(''LOINC_COMPONENT'', ''COMPONENT''), (''LOINC_METHOD_TYP'', ''METHOD_TYP''),
      (''LOINC_PROPERTY'', ''PROPERTY''), (''LOINC_SCALE_TYP'', ''SCALE_TYP''),
      (''LOINC_SYSTEM'', ''SYSTEM''), (''LOINC_TIME_ASPECT'', ''TIME_ASPCT''),
      (''LOR'', ''ORDER_OBS''), (''LQS'', ''SURVEY_QUEST_SRC''), (''LQT'', ''SURVEY_QUEST_TEXT''),
      (''LRN2'', ''RELATEDNAMES2''), (''LCL'', ''CLASS''), (''LCN'', ''CLASSTYPE''),
      (''LCS'', ''STATUS''), (''LCT'', ''CHNG_TYPE''), (''LEA'', ''EXMPL_ANSWERS''),
      (''LFO'', ''FORMULA''), (''LMP'', ''MAP_TO''), (''LUR'', ''UNITSREQUIRED''),
      (''LC'', ''LONG_COMMON_NAME'')]"

text \<open>
  The predicate of line 932. \<^verbatim>\<open>mappedProperties\<close> is an object literal too: an
  inherited member is never equal to a code, and a missing entry is undefined, which is
  equal to a missing code.
\<close>

definition matchesProperty :: "UmlsAttribute \<Rightarrow> CodeSystemProperty \<Rightarrow> bool" where
  "matchesProperty attr p =
     (attr_ATN attr = property_code p \<or>
      (case map_of mappedProperties (jsString (attr_ATN attr)) of
         Some v \<Rightarrow> property_code p = Some v
       | None \<Rightarrow> jsString (attr_ATN attr) \<notin> set objectPrototypeKeys \<and> property_code p = None))"

text \<open>One iteration of the loop over the lines of MRSAT.RRF (lines 920 to 955).\<close>

definition propertyStep ::
  "(source \<Rightarrow> CodeSystemProperty list option) \<Rightarrow> pstate \<Rightarrow> string \<Rightarrow> error + pstate" where
  "propertyStep res s line =
     (let attr = new_UmlsAttribute line; source = lookupSource (jsString (attr_SAB attr)) in
      if source = Undefined then Inr s
      else if attr_SUPPRESS attr \<noteq> Some ''N'' then Inr (s\<lparr>p_skipped := p_skipped s + 1\<rparr>)
      else
        (case (case source of
                 Own src \<Rightarrow> (case res src of
                               None \<Rightarrow> None
                             | Some ps \<Rightarrow> find (matchesProperty attr) ps)
               | _ \<Rightarrow> None) of
           None \<Rightarrow> Inr s
         | Some property \<Rightarrow>
             (case pushProperty (systemOf source)
                     \<lparr>prop_code = attr_CODE attr, prop_property = property_code property,
                      prop_value = attr_ATV attr\<rparr> s of
                Inl e \<Rightarrow> Inl e
              | Inr s1 \<Rightarrow>
                  Inr (s1\<lparr>p_counts := increment (jsString (systemOf source) @ ''|'' @
                                                   jsString (property_code property)) (p_counts s1),
                          p_processed := p_processed s1 + 1\<rparr>))))"

fun propertyLoop ::
  "(source \<Rightarrow> CodeSystemProperty list option) \<Rightarrow> pstate \<Rightarrow> string list \<Rightarrow> error + pstate" where
  "propertyLoop res s [] = Inr s"
| "propertyLoop res s (line # rest) =
     (case propertyStep res s line of Inl e \<Rightarrow> Inl e | Inr s' \<Rightarrow> propertyLoop res s' rest)"

text \<open>The pass: the loop, the final flush and the summary.\<close>

definition processProperties ::
  "(string \<Rightarrow> 'k::linorder) \<Rightarrow> (source \<Rightarrow> CodeSystemProperty list option) \<Rightarrow> string list \<Rightarrow>
   error + propertyResult" where
  "processProperties ck res lines =
     (case propertyLoop res p_initial lines of
        Inl e \<Rightarrow> Inl e
      | Inr s \<Rightarrow> Inr \<lparr>p_batches = p_sent (flushProperties s),
                      p_report = summaryOfProperties ck s\<rparr>)"

section \<open>Relationship pass\<close>

record UmlsRelationship =
  rel_CUI1 :: "string option"
  rel_AUI1 :: "string option"
  rel_STYPE1 :: "string option"
  rel_REL :: "string option"
  rel_CUI2 :: "string option"
  rel_AUI2 :: "string option"
  rel_STYPE2 :: "string option"
  rel_RELA :: "string option"
  rel_RUI :: "string option"
  rel_SRUI :: "string option"
  rel_SAB :: "string option"
  rel_SL :: "string option"
  rel_RG :: "string option"
  rel_DIR :: "string option"
  rel_SUPPRESS :: "string option"

definition new_UmlsRelationship :: "string \<Rightarrow> UmlsRelationship" where
  "new_UmlsRelationship line =
     (let f = js_split CHR ''|'' line in
      \<lparr>rel_CUI1 = column f 0, rel_AUI1 = column f 1, rel_STYPE1 = column f 2,
       rel_REL = column f 3, rel_CUI2 = column f 4, rel_AUI2 = column f 5,
       rel_STYPE2 = column f 6, rel_RELA = column f 7, rel_RUI = column f 8,
       rel_SRUI = column f 9, rel_SAB = column f 10, rel_SL = column f 11,
       rel_RG = column f 12, rel_DIR = column f 13, rel_SUPPRESS = column f 14\<rparr>)"

definition PARENT_PROPERTY :: string where
  "PARENT_PROPERTY = ''http://hl7.org/fhir/concept-properties#parent''"

definition CHILD_PROPERTY :: string where
  "CHILD_PROPERTY = ''http://hl7.org/fhir/concept-properties#child''"

text \<open>
  \<^verbatim>\<open>source.resource.property?.find((p) => p.uri === u)?.code ?? ''\<close> for a registry
  entry.
\<close>

definition findPropertyCode :: "CodeSystemProperty list option \<Rightarrow> string \<Rightarrow> string" where
  "findPropertyCode props u =
     (case props of
        None \<Rightarrow> []
      | Some ps \<Rightarrow>
          (case find (\<lambda>p. property_uri p = Some u) ps of
             None \<Rightarrow> []
           | Some p \<Rightarrow> (case property_code p of None \<Rightarrow> [] | Some c \<Rightarrow> c)))"

text \<open>
  Lines 1075 to 1083. The key of the Stage-A lookup holds two slashes, so it never names an
  inherited member of the map. Reading \<^verbatim>\<open>source.resource.property\<close> of an inherited
  member of the registry raises a TypeError.
\<close>

definition propertyNameOf ::
  "(string \<rightharpoonup> string) \<Rightarrow> (source \<Rightarrow> CodeSystemProperty list option) \<Rightarrow> lookup \<Rightarrow>
   UmlsRelationship \<Rightarrow> error + string option" where
  "propertyNameOf relationshipProperties res source rel =
     (let mappedPropertyName =
            relationshipProperties (jsString (rel_SAB rel) @ ''/'' @ jsString (rel_REL rel) @
                                    ''/'' @ jsString (rel_RELA rel))
      in if truthy mappedPropertyName then Inr mappedPropertyName
         else if rel_REL rel = Some ''PAR'' then
           (case source of
              Own src \<Rightarrow> Inr (Some (findPropertyCode (res src) PARENT_PROPERTY))
            | _ \<Rightarrow> Inl TypeError)
         else if rel_REL rel = Some ''CHD'' then
           (case source of
              Own src \<Rightarrow> Inr (Some (findPropertyCode (res src) CHILD_PROPERTY))
            | _ \<Rightarrow> Inl TypeError)
         else Inr None)"

text \<open>\<^verbatim>\<open>mappedCodes[aui]?.CODE\<close>\<close>

definition atomCode :: "(string \<rightharpoonup> UmlsConcept) \<Rightarrow> string option \<Rightarrow> string option" where
  "atomCode mappedCodes aui =
     (case mappedCodes (jsString aui) of None \<Rightarrow> None | Some atom \<Rightarrow> CODE atom)"

text \<open>One iteration of the loop over the lines of MRREL.RRF (lines 1065 to 1119).\<close>

definition relationshipStep ::
  "(string \<rightharpoonup> string) \<Rightarrow> (string \<rightharpoonup> UmlsConcept) \<Rightarrow>
   (source \<Rightarrow> CodeSystemProperty list option) \<Rightarrow> pstate \<Rightarrow> string \<Rightarrow> error + pstate" where
  "relationshipStep relationshipProperties mappedCodes res s line =
     (let rel = new_UmlsRelationship line; source = lookupSource (jsString (rel_SAB rel)) in
      if source = Undefined then Inr s
      else if rel_SUPPRESS rel \<noteq> Some ''N'' then Inr (s\<lparr>p_skipped := p_skipped s + 1\<rparr>)
      else
        (case propertyNameOf relationshipProperties res source rel of
           Inl e \<Rightarrow> Inl e
         | Inr propertyName \<Rightarrow>
             if \<not> truthy propertyName then Inr s
             else
               (let code = atomCode mappedCodes (rel_AUI1 rel);
                    val = atomCode mappedCodes (rel_AUI2 rel)
                in if \<not> truthy code \<or> \<not> truthy val
                   then Inr (s\<lparr>warnings := warnings s @
                                  [(jsString propertyName,
                                    jsString (rel_REL rel) @ ''/'' @ jsString (rel_RELA rel),
                                    if truthy code then rel_AUI2 rel else rel_AUI1 rel)],
                               p_skipped := p_skipped s + 1\<rparr>)
                   else
                     (case pushProperty (systemOf source)
                             \<lparr>prop_code = code, prop_property = propertyName,
                              prop_value = val\<rparr> s of
                        Inl e \<Rightarrow> Inl e
                      | Inr s1 \<Rightarrow>
                          Inr (s1\<lparr>p_counts :=
                                    increment (jsString (systemOf source) @ ''|'' @
                                               jsString propertyName @
                                               '' ('' @ jsString (rel_REL rel) @ ''/'' @
                                               jsString (rel_RELA rel) @ '')'') (p_counts s1),
                                  p_processed := p_processed s1 + 1\<rparr>)))))"

fun relationshipLoop ::
  "(string \<rightharpoonup> string) \<Rightarrow> (string \<rightharpoonup> UmlsConcept) \<Rightarrow>
   (source \<Rightarrow> CodeSystemProperty list option) \<Rightarrow> pstate \<Rightarrow> string list \<Rightarrow> error + pstate" where
  "relationshipLoop rp mc res s [] = Inr s"
| "relationshipLoop rp mc res s (line # rest) =
     (case relationshipStep rp mc res s line of
        Inl e \<Rightarrow> Inl e
      | Inr s' \<Rightarrow> relationshipLoop rp mc res s' rest)"

definition processRelationships ::
  "(string \<Rightarrow> 'k::linorder) \<Rightarrow> (string \<rightharpoonup> string) \<Rightarrow> (string \<rightharpoonup> UmlsConcept) \<Rightarrow>
   (source \<Rightarrow> CodeSystemProperty list option) \<Rightarrow> string list \<Rightarrow> error + propertyResult" where
  "processRelationships ck rp mc res lines =
     (case relationshipLoop rp mc res p_initial lines of
        Inl e \<Rightarrow> Inl e
      | Inr s \<Rightarrow> Inr \<lparr>p_batches = p_sent (flushProperties s),
                      p_report = summaryOfProperties ck s\<rparr>)"

section \<open>Notions used by the properties of the concept pass\<close>

text \<open>The key under which the winning record of a source and code is stored (lines 714, 726).\<close>

definition winnerKey :: "UmlsConcept \<Rightarrow> string" where
  "winnerKey c = jsString (SAB c) @ ''|'' @ jsString (CODE c)"

text \<open>The filters of lines 697 to 711 all passed: the record reaches line 713.\<close>

definition filteredIn :: "UmlsConcept \<Rightarrow> bool" where
  "filteredIn c =
     (case lookupSource (jsString (SAB c)) of
        Own src \<Rightarrow> LAT c = Some ''ENG'' \<and> js_includes (tty src) (TTY c) \<and> SUPPRESS c = Some ''N''
      | _ \<Rightarrow> False)"

text \<open>The record passed the source, language and term-type filters (lines 697 to 706).\<close>

definition reachesSuppressCheck :: "UmlsConcept \<Rightarrow> bool" where
  "reachesSuppressCheck c =
     (case lookupSource (jsString (SAB c)) of
        Own src \<Rightarrow> LAT c = Some ''ENG'' \<and> js_includes (tty src) (TTY c)
      | _ \<Rightarrow> False)"

text \<open>The position of the record's term type in the list of its source.\<close>

definition ttyIndex :: "UmlsConcept \<Rightarrow> int" where
  "ttyIndex c =
     (case lookupSource (jsString (SAB c)) of
        Own src \<Rightarrow> indexOf (tty src) (TTY c)
      | _ \<Rightarrow> - 1)"

text \<open>The better of the incumbent and a further filtered-in record of the same code (lines 715 to 726).\<close>

fun keepBest :: "UmlsConcept option \<Rightarrow> UmlsConcept \<Rightarrow> UmlsConcept option" where
  "keepBest None c = Some c"
| "keepBest (Some w) c = (if ttyIndex c < ttyIndex w then Some c else Some w)"

text \<open>The filtered-in records of a stream that are filed under a given winner key, in stream order.\<close>

definition candidates :: "string \<Rightarrow> string list \<Rightarrow> UmlsConcept list" where
  "candidates k lines = filter (\<lambda>c. filteredIn c \<and> winnerKey c = k) (map new_UmlsConcept lines)"

text \<open>
  The entry of the index under a key after the whole pass, when the pass completes: the
  winner of a winner key, the atom of an atom identifier.
\<close>

definition finalWinner :: "string list \<Rightarrow> string \<Rightarrow> UmlsConcept option" where
  "finalWinner lines k = (case processConcepts lines of Inl e \<Rightarrow> None | Inr r \<Rightarrow> index r k)"

text \<open>The lines on which the term-type check raises: see \<open>lookupSource\<close>.\<close>

definition raisesOn :: "string \<Rightarrow> bool" where
  "raisesOn line = (lookupSource (jsString (SAB (new_UmlsConcept line))) = Inherited
                     \<and> LAT (new_UmlsConcept line) = Some ''ENG'')"

text \<open>
  Every entry of the index is a filtered-in record filed under its own atom identifier or
  under its own winner key.
\<close>

definition indexInv :: "(string \<rightharpoonup> UmlsConcept) \<Rightarrow> bool" where
  "indexInv m = (\<forall>k w. m k = Some w \<longrightarrow>
      filteredIn w \<and> CHR ''|'' \<notin> set (jsString (SAB w)) \<and>
      (if CHR ''|'' \<in> set k then winnerKey w = k else jsString (AUI w) = k))"

section \<open>Notions used by the properties of the batches and of the summary\<close>

text \<open>
  The batches of one system among the sent ones, the open batch of a system, and the items
  appended for a system so far: those of its sent batches, then those of its open batch.
  \<open>push\<close> is the common shape of lines 729 to 741, 939 to 951 and 1103 to 1115 on the pair
  of the open batches and the sent ones.
\<close>

definition batchesFor :: "'k \<Rightarrow> ('k \<times> 'a list) list \<Rightarrow> 'a list list" where
  "batchesFor sys bs = map snd (filter (\<lambda>(y, b). y = sys) bs)"

definition openBatch :: "(string \<times> 'a list) list \<Rightarrow> string \<Rightarrow> 'a list" where
  "openBatch pend sys = (case map_of pend sys of None \<Rightarrow> [] | Some b \<Rightarrow> b)"

definition push ::
  "string \<Rightarrow> 'a \<Rightarrow> (string \<times> 'a list) list \<times> (string \<times> 'a list) list \<Rightarrow>
   (string \<times> 'a list) list \<times> (string \<times> 'a list) list" where
  "push sys x st =
     (let found = openBatch (fst st) sys @ [x]
      in if length found \<ge> 500
         then (AList.update sys [] (fst st), snd st @ [(sys, found)])
         else (AList.update sys found (fst st), snd st))"

definition items :: "(string \<times> 'a list) list \<times> (string \<times> 'a list) list \<Rightarrow> string \<Rightarrow> 'a list" where
  "items st sys = concat (batchesFor sys (snd st)) @ openBatch (fst st) sys"

definition batchInv :: "(string \<times> 'a list) list \<times> (string \<times> 'a list) list \<Rightarrow> bool" where
  "batchInv st = (distinct (map fst (fst st)) \<and> (\<forall>(y, b) \<in> set (fst st). length b < 500) \<and>
                  (\<forall>(y, b) \<in> set (snd st). length b = 500))"


text \<open>The items appended for a system by the concept pass; the coding and the system of a record.\<close>

definition emitted :: "cstate \<Rightarrow> string \<Rightarrow> Coding list" where
  "emitted s = items (codings s, sent s)"

definition codingOf :: "UmlsConcept \<Rightarrow> Coding" where
  "codingOf c = \<lparr>code = CODE c, display = STR' c\<rparr>"

definition targetSystem :: "UmlsConcept \<Rightarrow> string" where
  "targetSystem c = jsString (systemOf (lookupSource (jsString (SAB c))))"

text \<open>
  The record takes the winner's place in the given state (lines 715 to 726), and the records
  of a stream that did so on arrival: those filtered in with a term-type index strictly below
  that of every earlier filtered-in record of the same key.
\<close>

definition becomesWinner :: "cstate \<Rightarrow> UmlsConcept \<Rightarrow> bool" where
  "becomesWinner s c =
     (case lookupSource (jsString (SAB c)) of
        Own src \<Rightarrow>
          (case mappedConcepts s (winnerKey c) of
             None \<Rightarrow> True
           | Some w \<Rightarrow> indexOf (tty src) (TTY c) < indexOf (tty src) (TTY w))
      | _ \<Rightarrow> False)"

fun winningArrivals :: "UmlsConcept list \<Rightarrow> UmlsConcept list \<Rightarrow> UmlsConcept list" where
  "winningArrivals earlier [] = []"
| "winningArrivals earlier (c # cs) =
     (if filteredIn c \<and>
         (\<forall>w \<in> set earlier. filteredIn w \<and> winnerKey w = winnerKey c \<longrightarrow> ttyIndex c < ttyIndex w)
      then [c] else []) @ winningArrivals (earlier @ [c]) cs"


text \<open>
  The same for the attribute and relationship passes. A sent batch is counted under the key of
  the open batch it came from, which is the string form of the system it was sent with. Then
  the property found for an attribute record that passes the source and suppress filters, and
  the assertions appended for a system.
\<close>

definition sentByKey :: "(string option \<times> 'a list) list \<Rightarrow> (string \<times> 'a list) list" where
  "sentByKey bs = map (\<lambda>(y, b). (jsString y, b)) bs"

definition p_emitted :: "pstate \<Rightarrow> string \<Rightarrow> Property list" where
  "p_emitted s = items (properties s, sentByKey (p_sent s))"

definition acceptedProperty ::
  "(source \<Rightarrow> CodeSystemProperty list option) \<Rightarrow> UmlsAttribute \<Rightarrow> CodeSystemProperty option" where
  "acceptedProperty res attr =
     (case lookupSource (jsString (attr_SAB attr)) of
        Own src \<Rightarrow>
          if attr_SUPPRESS attr = Some ''N''
          then (case res src of None \<Rightarrow> None | Some ps \<Rightarrow> find (matchesProperty attr) ps)
          else None
      | _ \<Rightarrow> None)"

fun appendedProperties ::
  "(source \<Rightarrow> CodeSystemProperty list option) \<Rightarrow> string \<Rightarrow> string list \<Rightarrow> Property list" where
  "appendedProperties res sys [] = []"
| "appendedProperties res sys (line # rest) =
     (let attr = new_UmlsAttribute line in
      case acceptedProperty res attr of
        Some p \<Rightarrow>
          if systemOf (lookupSource (jsString (attr_SAB attr))) = Some sys
          then [\<lparr>prop_code = attr_CODE attr, prop_property = property_code p,
                 prop_value = attr_ATV attr\<rparr>]
          else []
      | None \<Rightarrow> []) @ appendedProperties res sys rest"


text \<open>
  The elements of a list in the order of their first occurrence, and the tally of a list of
  keys: every key with the number of its occurrences, in the order of first occurrence.
\<close>

fun firstSeen :: "'a list \<Rightarrow> 'a list" where
  "firstSeen [] = []"
| "firstSeen (x # xs) = x # removeAll x (firstSeen xs)"

definition tally :: "string list \<Rightarrow> (string \<times> nat) list" where
  "tally ks = map (\<lambda>k. (k, count_list ks k)) (firstSeen ks)"

text \<open>
  The systems of the filtered-in records of a stream, in the order in which they first occur.
  The key under which an attribute record is counted, if it is counted: it passes the source
  and suppress filters and a property is found for it. The same for a relationship record: it
  passes the two filters, it has a property name, and both of its atoms have a code.
\<close>

definition countedSystems :: "string list \<Rightarrow> string list" where
  "countedSystems lines =
     firstSeen (map targetSystem (filter filteredIn (map new_UmlsConcept lines)))"

definition propertyKey ::
  "(source \<Rightarrow> CodeSystemProperty list option) \<Rightarrow> string \<Rightarrow> string option" where
  "propertyKey res line =
     (let attr = new_UmlsAttribute line in
      case acceptedProperty res attr of
        Some p \<Rightarrow> Some (jsString (systemOf (lookupSource (jsString (attr_SAB attr)))) @ ''|'' @
                        jsString (property_code p))
      | None \<Rightarrow> None)"

definition relationshipKey ::
  "(string \<rightharpoonup> string) \<Rightarrow> (string \<rightharpoonup> UmlsConcept) \<Rightarrow>
   (source \<Rightarrow> CodeSystemProperty list option) \<Rightarrow> string \<Rightarrow> string option" where
  "relationshipKey rp mc res line =
     (let rel = new_UmlsRelationship line; source = lookupSource (jsString (rel_SAB rel)) in
      if source = Undefined \<or> rel_SUPPRESS rel \<noteq> Some ''N'' then None
      else
        (case propertyNameOf rp res source rel of
           Inl e \<Rightarrow> None
         | Inr pn \<Rightarrow>
             if truthy pn \<and> truthy (atomCode mc (rel_AUI1 rel)) \<and>
                truthy (atomCode mc (rel_AUI2 rel))
             then Some (jsString (systemOf source) @ ''|'' @ jsString pn @ '' ('' @
                        jsString (rel_REL rel) @ ''/'' @ jsString (rel_RELA rel) @ '')'')
             else None))"

text \<open>
  The winner keys counted for a system, the lines that reach the suppress check and fail it,
  and the relation between the first-occurrence counts and the lines read so far.
\<close>

definition countedKeys :: "string \<Rightarrow> string list \<Rightarrow> string set" where
  "countedKeys sys lines =
     {winnerKey c | c. c \<in> set (map new_UmlsConcept lines) \<and> filteredIn c \<and> targetSystem c = sys}"

definition skipCounted :: "string \<Rightarrow> bool" where
  "skipCounted line = (reachesSuppressCheck (new_UmlsConcept line)
                        \<and> SUPPRESS (new_UmlsConcept line) \<noteq> Some ''N'')"

definition countsInv :: "cstate \<Rightarrow> string list \<Rightarrow> bool" where
  "countsInv s pre = (distinct (map fst (counts s)) \<and>
     (\<forall>sys. map_of (counts s) sys =
        (if countedKeys sys pre = {} then None else Some (card (countedKeys sys pre)))))"


text \<open>
  A resource with a component property, a child property and a parent property, in this order,
  for concrete runs.
\<close>

definition exampleResource :: "source \<Rightarrow> CodeSystemProperty list option" where
  "exampleResource src =
     Some [\<lparr>property_code = Some ''COMPONENT'', property_uri = None\<rparr>,
           \<lparr>property_code = Some ''child'', property_uri = Some CHILD_PROPERTY\<rparr>,
           \<lparr>property_code = Some ''parent'', property_uri = Some PARENT_PROPERTY\<rparr>]"

section \<open>Fields of a decoded line\<close>

lemma js_split_nonempty: "js_split d s \<noteq> []"
  by (induction s) (auto split: list.splits)

lemma js_split_no_delim: "f \<in> set (js_split d s) \<Longrightarrow> d \<notin> set f"
  by (induction s arbitrary: f) (auto split: list.splits if_splits)

lemma column_no_delim: "column (js_split d s) i = Some f \<Longrightarrow> d \<notin> set f"
  using js_split_no_delim [of "js_split d s ! i" d s]
  by (auto simp: column_def split: if_splits)

lemma jsString_column_no_pipe:
  "CHR ''|'' \<notin> set (jsString (column (js_split CHR ''|'' s) i))"
proof (cases "column (js_split CHR ''|'' s) i")
  case None
  then show ?thesis by (simp add: jsString_def)
next
  case (Some f)
  then show ?thesis using column_no_delim [OF Some] by (simp add: jsString_def)
qed

lemma AUI_no_pipe: "CHR ''|'' \<notin> set (jsString (AUI (new_UmlsConcept line)))"
  by (simp add: new_UmlsConcept_def Let_def jsString_column_no_pipe)

lemma SAB_no_pipe: "CHR ''|'' \<notin> set (jsString (SAB (new_UmlsConcept line)))"
  by (simp add: new_UmlsConcept_def Let_def jsString_column_no_pipe)

lemma winnerKey_pipe: "CHR ''|'' \<in> set (winnerKey c)"
  by (simp add: winnerKey_def)

lemma AUI_neq_winnerKey: "jsString (AUI (new_UmlsConcept line)) \<noteq> winnerKey c"
  using AUI_no_pipe [of line] winnerKey_pipe [of c] by metis

lemma key_inject:
  "a @ ''|'' @ b = a' @ ''|'' @ b' \<Longrightarrow> CHR ''|'' \<notin> set a \<Longrightarrow> CHR ''|'' \<notin> set a'
   \<Longrightarrow> a = a' \<and> b = b'"
proof (induction a arbitrary: a')
  case Nil
  then show ?case by (cases a') auto
next
  case (Cons x xs)
  then show ?case by (cases a') auto
qed

section \<open>One iteration of the concept pass\<close>

lemma conceptStep_filteredIn:
  assumes "c = new_UmlsConcept line"
    and "lookupSource (jsString (SAB c)) = Own src"
    and "LAT c = Some ''ENG''" and "js_includes (tty src) (TTY c)" and "SUPPRESS c = Some ''N''"
  shows "conceptStep s line =
     Inr (let s1 = s\<lparr>mappedConcepts := (mappedConcepts s)(jsString (AUI c) \<mapsto> c)\<rparr> in
          case mappedConcepts s (winnerKey c) of
            Some w \<Rightarrow> if indexOf (tty src) (TTY c) \<ge> indexOf (tty src) (TTY w) then s1
                      else storeWinner src c s1
          | None \<Rightarrow> storeWinner src c (s1\<lparr>counts := increment (system src) (counts s)\<rparr>))"
proof -
  have ne: "winnerKey c \<noteq> jsString (AUI c)"
    using AUI_neq_winnerKey [of line c] assms(1) by metis
  have rd: "((mappedConcepts s)(jsString (AUI c) \<mapsto> c)) (winnerKey c) = mappedConcepts s (winnerKey c)"
    using ne by simp
  show ?thesis
    using assms(2-5) rd
    unfolding conceptStep_def Let_def assms(1) [symmetric] winnerKey_def
    by (simp split: option.splits)
qed

lemma conceptStep_not_filteredIn:
  assumes "c = new_UmlsConcept line" and "\<not> filteredIn c"
    and "conceptStep s line = Inr s'"
  shows "s' = s\<lparr>skipped := skipped s'\<rparr>"
  using assms(2,3) unfolding conceptStep_def Let_def assms(1) [symmetric] filteredIn_def
  by (auto split: lookup.splits if_splits)

section \<open>Suppressed records\<close>

text \<open>
  C3, as the code has it: a concept record whose SUPPRESS flag is not N, and whose source
  abbreviation does not name a member inherited from the prototype of the registry object,
  leaves the atom index, the winners, the first-occurrence counts, the open batches, the
  sent batches and the processed counter unchanged. The skip counter grows by exactly one
  when the record has passed the source, language and term-type filters, and stays as it
  is otherwise: the suppress check is the last of the chain.
\<close>

theorem suppressed_record_dropped:
  assumes "c = new_UmlsConcept line"
    and "SUPPRESS c \<noteq> Some ''N''"
    and "lookupSource (jsString (SAB c)) \<noteq> Inherited"
  shows "conceptStep s line =
           Inr (s\<lparr>skipped := skipped s + (if reachesSuppressCheck c then 1 else 0)\<rparr>)"
  using assms(2,3)
  unfolding conceptStep_def Let_def assms(1) [symmetric] reachesSuppressCheck_def
  by (simp split: lookup.splits)

theorem suppressed_record_dropped_witness:
  "conceptStep initial ''C1|ENG|P|L1|PF|S1|Y|A1||||SNOMEDCT_US|PT|100|x|0|O'' =
     Inr (initial\<lparr>skipped := 1\<rparr>)"
  using suppressed_record_dropped
    [of "new_UmlsConcept ''C1|ENG|P|L1|PF|S1|Y|A1||||SNOMEDCT_US|PT|100|x|0|O''"
        "''C1|ENG|P|L1|PF|S1|Y|A1||||SNOMEDCT_US|PT|100|x|0|O''" initial]
  by (simp add: new_UmlsConcept_def column_def jsString_def lookupSource_def umlsSources_def
      objectPrototypeKeys_def reachesSuppressCheck_def js_includes_def initial_def)

text \<open>
  C3 as stated fails: a suppressed record of a source that is not in the registry is dropped
  by the first check of the chain, and the skip counter does not move.
\<close>

theorem suppressed_unknown_source_not_skipped:
  "SUPPRESS (new_UmlsConcept ''C1|ENG|P|L1|PF|S1|Y|A1||||MSH|PT|100|x|0|O'') = Some ''O''
   \<and> conceptStep initial ''C1|ENG|P|L1|PF|S1|Y|A1||||MSH|PT|100|x|0|O'' = Inr initial
   \<and> skipped initial = 0"
  by (simp add: conceptStep_def new_UmlsConcept_def column_def jsString_def lookupSource_def
      umlsSources_def objectPrototypeKeys_def initial_def)

section \<open>Lines that name an inherited member\<close>

text \<open>
  C9: a line of twelve columns whose language is ENG and whose source abbreviation is
  toString. The registry lookup finds the inherited function, which is truthy and has no
  term-type list, and the term-type check raises a TypeError: the concept pass stops.
\<close>

theorem malformed_line_throws:
  "length (js_split CHR ''|'' ''x|ENG||||||||||toString'') = 12
   \<and> conceptStep s ''x|ENG||||||||||toString'' = Inl TypeError
   \<and> processConcepts [''x|ENG||||||||||toString''] = Inl TypeError"
  by (simp add: processConcepts_def conceptStep_def new_UmlsConcept_def column_def jsString_def
      lookupSource_def umlsSources_def objectPrototypeKeys_def)

section \<open>Evaluation on concrete streams\<close>

lemmas run_defs = processConcepts_def conceptStep_def new_UmlsConcept_def column_def jsString_def
  lookupSource_def umlsSources_def objectPrototypeKeys_def js_includes_def initial_def
  storeWinner_def pushCoding_def increment_def flushCodings_def summaryOf_def Let_def

section \<open>Fields of the loop state\<close>

lemma pushCoding_fields [simp]:
  "mappedConcepts (pushCoding sys cd s) = mappedConcepts s"
  "counts (pushCoding sys cd s) = counts s"
  "processed (pushCoding sys cd s) = processed s"
  "skipped (pushCoding sys cd s) = skipped s"
  by (simp_all add: pushCoding_def Let_def)

lemma storeWinner_fields [simp]:
  "mappedConcepts (storeWinner src c s) = (mappedConcepts s)(winnerKey c \<mapsto> c)"
  "counts (storeWinner src c s) = counts s"
  "processed (storeWinner src c s) = processed s + 1"
  "skipped (storeWinner src c s) = skipped s"
  by (simp_all add: storeWinner_def Let_def winnerKey_def)

lemma filteredIn_cases:
  assumes "filteredIn c"
  obtains src where "lookupSource (jsString (SAB c)) = Own src" and "LAT c = Some ''ENG''"
    and "js_includes (tty src) (TTY c)" and "SUPPRESS c = Some ''N''"
  using assms unfolding filteredIn_def by (auto split: lookup.splits)

text \<open>What one iteration does to the index, key by key.\<close>

lemma conceptStep_index:
  assumes c: "c = new_UmlsConcept line" and st: "conceptStep s line = Inr s'"
  shows "mappedConcepts s' k =
     (if \<not> filteredIn c then mappedConcepts s k
      else if k = jsString (AUI c) then Some c
      else if k = winnerKey c then
        (case mappedConcepts s k of
           None \<Rightarrow> Some c
         | Some w \<Rightarrow> if ttyIndex c < indexOf (tty (case lookupSource (jsString (SAB c)) of Own src \<Rightarrow> src)) (TTY w) then Some c else Some w)
      else mappedConcepts s k)"
proof (cases "filteredIn c")
  case False
  then show ?thesis using conceptStep_not_filteredIn [OF c False st]
    by (metis cstate.select_convs(5) cstate.surjective cstate.update_convs(2))
next
  case True
  then obtain src where src: "lookupSource (jsString (SAB c)) = Own src" and l: "LAT c = Some ''ENG''"
    and t: "js_includes (tty src) (TTY c)" and su: "SUPPRESS c = Some ''N''"
    by (rule filteredIn_cases)
  have ne: "winnerKey c \<noteq> jsString (AUI c)"
    using AUI_neq_winnerKey [of line c] c by metis
  show ?thesis
    using st True ne unfolding conceptStep_filteredIn [OF c src l t su] Let_def
    by (auto simp: ttyIndex_def src split: option.splits if_splits)
qed

section \<open>The index invariant and the winner of a key\<close>

lemma indexInv_step:
  assumes inv: "indexInv (mappedConcepts s)" and st: "conceptStep s line = Inr s'"
  shows "indexInv (mappedConcepts s')"
proof -
  define c where "c = new_UmlsConcept line"
  have a: "CHR ''|'' \<notin> set (jsString (AUI c))" and b: "CHR ''|'' \<notin> set (jsString (SAB c))"
    unfolding c_def by (rule AUI_no_pipe, rule SAB_no_pipe)
  have p: "CHR ''|'' \<in> set (winnerKey c)" by (rule winnerKey_pipe)
  show ?thesis
    unfolding indexInv_def
  proof (intro allI impI)
    fix k w assume kw: "mappedConcepts s' k = Some w"
    have old: "mappedConcepts s k = Some w \<Longrightarrow> filteredIn w \<and> CHR ''|'' \<notin> set (jsString (SAB w)) \<and>
      (if CHR ''|'' \<in> set k then winnerKey w = k else jsString (AUI w) = k)"
      using inv unfolding indexInv_def by blast
    show "filteredIn w \<and> CHR ''|'' \<notin> set (jsString (SAB w)) \<and>
      (if CHR ''|'' \<in> set k then winnerKey w = k else jsString (AUI w) = k)"
      using kw old a b p unfolding conceptStep_index [OF c_def st, of k]
      by (auto split: if_splits option.splits)
  qed
qed

lemma indexInv_loop:
  "indexInv (mappedConcepts s) \<Longrightarrow> conceptLoop s lines = Inr s' \<Longrightarrow> indexInv (mappedConcepts s')"
proof (induction lines arbitrary: s)
  case Nil
  then show ?case by simp
next
  case (Cons line rest)
  then show ?case
    by (auto split: sum.splits dest: indexInv_step)
qed

lemma indexInv_initial: "indexInv (mappedConcepts initial)"
  by (simp add: indexInv_def initial_def)

lemma same_key_same_source:
  assumes "winnerKey w = winnerKey c" and "CHR ''|'' \<notin> set (jsString (SAB w))"
    and "CHR ''|'' \<notin> set (jsString (SAB c))"
  shows "jsString (SAB w) = jsString (SAB c)"
  using key_inject [of "jsString (SAB w)" "jsString (CODE w)" "jsString (SAB c)" "jsString (CODE c)"]
    assms unfolding winnerKey_def by simp

lemma winner_step:
  assumes inv: "indexInv (mappedConcepts s)" and c: "c = new_UmlsConcept line"
    and st: "conceptStep s line = Inr s'" and k: "CHR ''|'' \<in> set k"
  shows "mappedConcepts s' k =
     (if filteredIn c \<and> winnerKey c = k then keepBest (mappedConcepts s k) c else mappedConcepts s k)"
proof -
  have a: "CHR ''|'' \<notin> set (jsString (AUI c))" and b: "CHR ''|'' \<notin> set (jsString (SAB c))"
    unfolding c by (rule AUI_no_pipe, rule SAB_no_pipe)
  have ne: "k \<noteq> jsString (AUI c)" using a k by metis
  have idx: "indexOf (tty (case lookupSource (jsString (SAB c)) of Own src \<Rightarrow> src)) (TTY w) = ttyIndex w"
    if "mappedConcepts s k = Some w" and "winnerKey c = k" and "filteredIn c" for w
  proof -
    have "winnerKey w = winnerKey c" and "CHR ''|'' \<notin> set (jsString (SAB w))" and fw: "filteredIn w"
      using inv that(1,2) k unfolding indexInv_def by (metis)+
    then have "jsString (SAB w) = jsString (SAB c)" using same_key_same_source b by blast
    then show ?thesis using fw unfolding ttyIndex_def filteredIn_def by (simp split: lookup.splits)
  qed
  show ?thesis
    unfolding conceptStep_index [OF c st, of k] using ne idx
    by (cases "mappedConcepts s k") (auto)
qed

lemma winner_loop:
  assumes "indexInv (mappedConcepts s)" and "conceptLoop s lines = Inr s'" and "CHR ''|'' \<in> set k"
  shows "mappedConcepts s' k = foldl keepBest (mappedConcepts s k) (candidates k lines)"
  using assms
proof (induction lines arbitrary: s)
  case Nil
  then show ?case by (simp add: candidates_def)
next
  case (Cons line rest)
  from Cons.prems(2) obtain s1 where s1: "conceptStep s line = Inr s1" and r: "conceptLoop s1 rest = Inr s'"
    by (auto split: sum.splits)
  have i1: "indexInv (mappedConcepts s1)" using indexInv_step [OF Cons.prems(1) s1] .
  have "mappedConcepts s' k = foldl keepBest (mappedConcepts s1 k) (candidates k rest)"
    using Cons.IH [OF i1 r Cons.prems(3)] .
  then show ?case
    using winner_step [OF Cons.prems(1) refl s1 Cons.prems(3)]
    by (simp add: candidates_def)
qed

lemma keepBest_first_min:
  assumes "\<forall>x \<in> set (a # cs). m \<le> ttyIndex x" and "\<exists>x \<in> set (a # cs). ttyIndex x = m"
  shows "foldl keepBest (Some a) cs = find (\<lambda>x. ttyIndex x = m) (a # cs)"
  using assms
proof (induction cs arbitrary: a)
  case Nil
  then show ?case by auto
next
  case (Cons c cs)
  let ?a' = "if ttyIndex c < ttyIndex a then c else a"
  have 1: "\<forall>x \<in> set (?a' # cs). m \<le> ttyIndex x" using Cons.prems(1) by auto
  have 2: "\<exists>x \<in> set (?a' # cs). ttyIndex x = m" using Cons.prems by force
  have "foldl keepBest (Some a) (c # cs) = foldl keepBest (Some ?a') cs" by simp
  also have "\<dots> = find (\<lambda>x. ttyIndex x = m) (?a' # cs)" using Cons.IH [OF 1 2] .
  also have "\<dots> = find (\<lambda>x. ttyIndex x = m) (a # c # cs)" using Cons.prems by force
  finally show ?case .
qed

lemma conceptStep_raises: "(\<exists>s'. conceptStep s line = Inr s') \<longleftrightarrow> \<not> raisesOn line"
  unfolding conceptStep_def raisesOn_def Let_def
  by (auto split: lookup.splits option.splits)

lemma conceptLoop_completes:
  "(\<exists>s'. conceptLoop s lines = Inr s') \<longleftrightarrow> (\<forall>line \<in> set lines. \<not> raisesOn line)"
proof (induction lines arbitrary: s)
  case Nil
  then show ?case by simp
next
  case (Cons line rest)
  show ?case
  proof (cases "conceptStep s line")
    case (Inl e)
    then have "raisesOn line" using conceptStep_raises [of s line] by auto
    then show ?thesis using Inl by simp
  next
    case (Inr s1)
    then have "\<not> raisesOn line" using conceptStep_raises [of s line] by auto
    then show ?thesis using Inr Cons.IH [of s1] by simp
  qed
qed

lemma indexOf_inject:
  "js_includes xs a \<Longrightarrow> indexOf xs a = indexOf xs b \<Longrightarrow> a = b"
proof (induction xs)
  case Nil
  then show ?case by (simp add: js_includes_def split: option.splits)
next
  case (Cons x xs)
  show ?case
  proof (cases "a = Some x")
    case True
    then show ?thesis using Cons.prems(2) by (auto simp: Let_def split: if_splits)
  next
    case False
    then have inc: "js_includes xs a" using Cons.prems(1)
      by (auto simp: js_includes_def split: option.splits)
    have nn: "indexOf xs a \<ge> 0 \<Longrightarrow> indexOf xs b \<ge> 0 \<Longrightarrow> indexOf xs a = indexOf xs b"
      using Cons.prems(2) False by (auto simp: Let_def split: if_splits)
    have pos: "indexOf ys v \<ge> 0" if "js_includes ys v" for ys v
      using that by (induction ys) (auto simp: js_includes_def Let_def split: option.splits)
    have "b \<noteq> Some x" using Cons.prems(2) False pos [OF inc] by (auto simp: Let_def split: if_splits)
    then have "indexOf xs a = indexOf xs b"
      using Cons.prems(2) False pos [OF inc] by (auto simp: Let_def split: if_splits)
    then show ?thesis using Cons.IH [OF inc] by simp
  qed
qed

lemma candidates_same_tty:
  assumes "w \<in> set (candidates k lines)" and "w' \<in> set (candidates k lines)"
    and "ttyIndex w = ttyIndex w'"
  shows "TTY w = TTY w'"
proof -
  obtain l l' where w: "w = new_UmlsConcept l" "filteredIn w" "winnerKey w = k"
    and w': "w' = new_UmlsConcept l'" "filteredIn w'" "winnerKey w' = k"
    using assms(1,2) unfolding candidates_def by auto
  have "jsString (SAB w) = jsString (SAB w')"
    using same_key_same_source [of w w'] w w' SAB_no_pipe by simp
  moreover obtain src where "lookupSource (jsString (SAB w)) = Own src" "js_includes (tty src) (TTY w)"
    using w(2) by (rule filteredIn_cases)
  ultimately show ?thesis
    using assms(3) indexOf_inject [of "tty src" "TTY w" "TTY w'"] unfolding ttyIndex_def by simp
qed

lemma candidates_perm:
  assumes "mset lines' = mset lines"
  shows "mset (candidates k lines') = mset (candidates k lines)"
  unfolding candidates_def using assms by simp

lemma candidates_perm_set:
  assumes "mset lines' = mset lines"
  shows "set (candidates k lines') = set (candidates k lines)"
  using candidates_perm [OF assms, of k] by (rule mset_eq_setD)

lemma loop_final_winner:
  assumes "conceptLoop initial lines = Inr s" and "candidates k lines \<noteq> []"
  shows "\<exists>w. mappedConcepts s k = Some w \<and> w \<in> set (candidates k lines) \<and>
            ttyIndex w = Min (ttyIndex ` set (candidates k lines)) \<and>
            find (\<lambda>c. ttyIndex c = ttyIndex w) (candidates k lines) = Some w"
proof -
  obtain a cs where acs: "candidates k lines = a # cs" using assms(2) by (cases "candidates k lines") auto
  then have "a \<in> set (candidates k lines)" by simp
  then have "winnerKey a = k" unfolding candidates_def by auto
  then have k: "CHR ''|'' \<in> set k" using winnerKey_pipe by blast
  let ?m = "Min (ttyIndex ` set (a # cs))"
  have le: "\<forall>x \<in> set (a # cs). ?m \<le> ttyIndex x" by (simp del: set_simps)
  have ex: "\<exists>x \<in> set (a # cs). ttyIndex x = ?m"
    using Min_in [of "ttyIndex ` set (a # cs)"] by (auto simp del: Min_insert)
  have "mappedConcepts s k = foldl keepBest (Some a) cs"
    using winner_loop [OF indexInv_initial assms(1) k] acs by (simp add: initial_def)
  also have "\<dots> = find (\<lambda>x. ttyIndex x = ?m) (a # cs)" using keepBest_first_min [OF le ex] .
  finally have f: "mappedConcepts s k = find (\<lambda>x. ttyIndex x = ?m) (a # cs)" .
  obtain w where w: "find (\<lambda>x. ttyIndex x = ?m) (a # cs) = Some w"
    using ex by (cases "find (\<lambda>x. ttyIndex x = ?m) (a # cs)") (auto simp: find_None_iff simp del: find.simps Min_insert set_simps)
  then have "ttyIndex w = ?m \<and> w \<in> set (a # cs)"
    by (auto simp: find_Some_iff simp del: find.simps Min_insert set_simps)
  then show ?thesis using f w acs by (auto simp del: find.simps Min_insert set_simps)
qed

lemma processConcepts_Inr:
  "processConcepts lines = Inr r \<longleftrightarrow>
     (\<exists>s. conceptLoop initial lines = Inr s \<and>
          r = \<lparr>index = mappedConcepts s, batches = sent (flushCodings s), report = summaryOf s\<rparr>)"
  unfolding processConcepts_def by (auto split: sum.splits)

section \<open>Preference among the records of one code\<close>

text \<open>
  C1, as the code has it: when the concept pass completes, the record stored under the key of a
  source and code is a filtered-in record of that key whose term-type index is the lowest
  among all filtered-in records of the key, and it is the first such record in stream order.
  Every permutation of the stream completes too and ends with a winner of the same term-type
  index and term type.
\<close>

theorem final_winner_lowest_index:
  assumes "processConcepts lines = Inr r" and "candidates k lines \<noteq> []"
  shows "\<exists>w. index r k = Some w \<and> w \<in> set (candidates k lines) \<and>
            (\<forall>c \<in> set (candidates k lines). ttyIndex w \<le> ttyIndex c) \<and>
            find (\<lambda>c. ttyIndex c = ttyIndex w) (candidates k lines) = Some w \<and>
            (\<forall>lines'. mset lines' = mset lines \<longrightarrow>
               (\<exists>r' w'. processConcepts lines' = Inr r' \<and> index r' k = Some w' \<and>
                        ttyIndex w' = ttyIndex w \<and> TTY w' = TTY w))"
proof -
  obtain s where s: "conceptLoop initial lines = Inr s" and r: "index r = mappedConcepts s"
    using assms(1) unfolding processConcepts_Inr by auto
  obtain w where w: "mappedConcepts s k = Some w" "w \<in> set (candidates k lines)"
      "ttyIndex w = Min (ttyIndex ` set (candidates k lines))"
      "find (\<lambda>c. ttyIndex c = ttyIndex w) (candidates k lines) = Some w"
    using loop_final_winner [OF s assms(2)] by blast
  have low: "\<forall>c \<in> set (candidates k lines). ttyIndex w \<le> ttyIndex c"
    using w(3) by simp
  have perm: "\<exists>r' w'. processConcepts lines' = Inr r' \<and> index r' k = Some w' \<and>
                        ttyIndex w' = ttyIndex w \<and> TTY w' = TTY w"
    if p: "mset lines' = mset lines" for lines'
  proof -
    have "set lines' = set lines" using p by (rule mset_eq_setD)
    then have "\<forall>line \<in> set lines'. \<not> raisesOn line"
      using conceptLoop_completes [of initial lines] s by auto
    then obtain s' where s': "conceptLoop initial lines' = Inr s'"
      using conceptLoop_completes [of initial lines'] by auto
    have ceq: "set (candidates k lines') = set (candidates k lines)"
      using candidates_perm_set [OF p] .
    then have ne: "candidates k lines' \<noteq> []" using assms(2) by auto
    obtain w' where w': "mappedConcepts s' k = Some w'" "w' \<in> set (candidates k lines')"
      "ttyIndex w' = Min (ttyIndex ` set (candidates k lines'))"
      using loop_final_winner [OF s' ne] by blast
    have i: "ttyIndex w' = ttyIndex w" using w'(3) w(3) ceq by simp
    have "TTY w' = TTY w" using candidates_same_tty [of w' k lines w] w'(2) w(2) ceq i by simp
    then show ?thesis using s' w'(1) i unfolding processConcepts_def by simp
  qed
  show ?thesis using w r low perm by auto
qed

theorem final_winner_lowest_index_witness:
  "\<exists>r w. processConcepts [''C1|ENG|P|L1|PF|S1|Y|A1||||SNOMEDCT_US|SY|100|syn|0|N'',
                           ''C1|ENG|P|L2|PF|S2|Y|A2||||SNOMEDCT_US|FN|100|full|0|N''] = Inr r
      \<and> index r ''SNOMEDCT_US|100'' = Some w \<and> ttyIndex w = 0 \<and> AUI w = Some ''A2''"
proof -
  let ?L = "[''C1|ENG|P|L1|PF|S1|Y|A1||||SNOMEDCT_US|SY|100|syn|0|N'',
             ''C1|ENG|P|L2|PF|S2|Y|A2||||SNOMEDCT_US|FN|100|full|0|N'']"
  let ?b = "new_UmlsConcept ''C1|ENG|P|L2|PF|S2|Y|A2||||SNOMEDCT_US|FN|100|full|0|N''"
  obtain r where r: "processConcepts ?L = Inr r"
    by (simp add: run_defs)
  have c: "candidates ''SNOMEDCT_US|100'' ?L \<noteq> []"
    by (simp add: candidates_def filteredIn_def winnerKey_def run_defs)
  have b: "?b \<in> set (candidates ''SNOMEDCT_US|100'' ?L)"
    by (simp add: candidates_def filteredIn_def winnerKey_def run_defs)
  have i: "ttyIndex ?b = 0"
    by (simp add: ttyIndex_def run_defs)
  obtain w where w: "index r ''SNOMEDCT_US|100'' = Some w"
      "\<forall>c \<in> set (candidates ''SNOMEDCT_US|100'' ?L). ttyIndex w \<le> ttyIndex c"
      "w \<in> set (candidates ''SNOMEDCT_US|100'' ?L)"
    using final_winner_lowest_index [OF r c] by blast
  have "w = ?b \<or> w = new_UmlsConcept ''C1|ENG|P|L1|PF|S1|Y|A1||||SNOMEDCT_US|SY|100|syn|0|N''"
    using w(3) by (auto simp: candidates_def split: if_splits)
  moreover have "ttyIndex w \<le> 0" using w(2) b i by auto
  moreover have "ttyIndex (new_UmlsConcept ''C1|ENG|P|L1|PF|S1|Y|A1||||SNOMEDCT_US|SY|100|syn|0|N'') = 2"
    by (simp add: ttyIndex_def run_defs)
  ultimately have "w = ?b" by auto
  then have "ttyIndex w = 0 \<and> AUI w = Some ''A2''" using i by (simp add: run_defs)
  then show ?thesis using r w(1) by blast
qed

text \<open>
  C1 as stated fails for the second half: two synonyms of one code with the same term type tie,
  the incumbent is kept, and the two orders of the same two lines end with different winners.
\<close>

theorem tie_winner_depends_on_order:
  "mset [''C1|ENG|P|L1|PF|S1|Y|A1||||SNOMEDCT_US|SY|100|first|0|N'',
         ''C1|ENG|S|L2|PF|S2|Y|A2||||SNOMEDCT_US|SY|100|second|0|N''] =
   mset [''C1|ENG|S|L2|PF|S2|Y|A2||||SNOMEDCT_US|SY|100|second|0|N'',
         ''C1|ENG|P|L1|PF|S1|Y|A1||||SNOMEDCT_US|SY|100|first|0|N'']
   \<and> map_option STR' (finalWinner
         [''C1|ENG|P|L1|PF|S1|Y|A1||||SNOMEDCT_US|SY|100|first|0|N'',
          ''C1|ENG|S|L2|PF|S2|Y|A2||||SNOMEDCT_US|SY|100|second|0|N''] ''SNOMEDCT_US|100'')
       = Some (Some ''first'')
   \<and> map_option STR' (finalWinner
         [''C1|ENG|S|L2|PF|S2|Y|A2||||SNOMEDCT_US|SY|100|second|0|N'',
          ''C1|ENG|P|L1|PF|S1|Y|A1||||SNOMEDCT_US|SY|100|first|0|N''] ''SNOMEDCT_US|100'')
       = Some (Some ''second'')"
  by (simp add: finalWinner_def run_defs)

section \<open>Winner update and first-occurrence counting\<close>

lemma increment_lookup:
  "map_of (increment k cs) =
     (map_of cs)(k \<mapsto> (case map_of cs k of None \<Rightarrow> 0 | Some n \<Rightarrow> n) + 1)"
  by (simp add: increment_def update_conv')

lemma step_winner_and_count:
  assumes c: "c = new_UmlsConcept line" and src: "lookupSource (jsString (SAB c)) = Own src"
    and l: "LAT c = Some ''ENG''" and t: "js_includes (tty src) (TTY c)"
    and su: "SUPPRESS c = Some ''N''"
  shows "\<exists>s'. conceptStep s line = Inr s' \<and>
     (mappedConcepts s (winnerKey c) = None \<longrightarrow>
        mappedConcepts s' (winnerKey c) = Some c \<and>
        counts s' = increment (system src) (counts s) \<and>
        map_of (counts s') =
          (map_of (counts s))(system src \<mapsto>
             (case map_of (counts s) (system src) of None \<Rightarrow> 0 | Some n \<Rightarrow> n) + 1)) \<and>
     (\<forall>w. mappedConcepts s (winnerKey c) = Some w \<longrightarrow>
        counts s' = counts s \<and>
        mappedConcepts s' (winnerKey c) =
          (if indexOf (tty src) (TTY c) < indexOf (tty src) (TTY w) then Some c else Some w))"
proof -
  have ne: "winnerKey c \<noteq> jsString (AUI c)"
    using AUI_neq_winnerKey [of line c] c by metis
  show ?thesis
    unfolding conceptStep_filteredIn [OF c src l t su] Let_def using ne
    by (auto simp: increment_lookup)
qed

lemma two_rows_scenario:
  assumes a: "a = new_UmlsConcept la" and b: "b = new_UmlsConcept lb"
    and fa: "filteredIn a" and fb: "filteredIn b" and key: "winnerKey a = winnerKey b"
    and ia: "ttyIndex a = 2" and ib: "ttyIndex b = 0"
    and src: "lookupSource (jsString (SAB b)) = Own src"
  shows "\<exists>r1 r2. processConcepts [la, lb] = Inr r1 \<and> processConcepts [lb, la] = Inr r2 \<and>
           index r1 (winnerKey b) = Some b \<and> index r2 (winnerKey b) = Some b \<and>
           perSystem (report r1) = [(system src, 1)] \<and> perSystem (report r2) = [(system src, 1)]"
proof -
  have "jsString (SAB a) = jsString (SAB b)"
    using same_key_same_source [OF key] SAB_no_pipe a b by simp
  then have srca: "lookupSource (jsString (SAB a)) = Own src" using src by simp
  have xa: "LAT a = Some ''ENG''" "js_includes (tty src) (TTY a)" "SUPPRESS a = Some ''N''"
    using fa srca unfolding filteredIn_def by simp_all
  have xb: "LAT b = Some ''ENG''" "js_includes (tty src) (TTY b)" "SUPPRESS b = Some ''N''"
    using fb src unfolding filteredIn_def by simp_all
  have ja: "indexOf (tty src) (TTY a) = 2" using ia srca unfolding ttyIndex_def by simp
  have jb: "indexOf (tty src) (TTY b) = 0" using ib src unfolding ttyIndex_def by simp
  note sa = step_winner_and_count [OF a srca xa]
  note sb = step_winner_and_count [OF b src xb]
  have m0: "mappedConcepts initial k = None" "counts initial = []" for k
    by (simp_all add: initial_def)
  have one: "increment (system src) [] = [(system src, 1)]" by (simp add: increment_def)
  \<comment> \<open>the less preferred row first\<close>
  obtain s1 where s1: "conceptStep initial la = Inr s1" "mappedConcepts s1 (winnerKey a) = Some a"
      "counts s1 = [(system src, 1)]"
    using sa [of initial] m0 one by auto
  obtain s2 where s2: "conceptStep s1 lb = Inr s2" "mappedConcepts s2 (winnerKey b) = Some b"
      "counts s2 = [(system src, 1)]"
    using sb [of s1] s1(2,3) key ja jb by auto
  \<comment> \<open>the preferred row first\<close>
  obtain t1 where t1: "conceptStep initial lb = Inr t1" "mappedConcepts t1 (winnerKey b) = Some b"
      "counts t1 = [(system src, 1)]"
    using sb [of initial] m0 one by auto
  obtain t2 where t2: "conceptStep t1 la = Inr t2" "mappedConcepts t2 (winnerKey b) = Some b"
      "counts t2 = [(system src, 1)]"
    using sa [of t1] t1(2,3) key ja jb by auto
  show ?thesis
    unfolding processConcepts_def using s1 s2 t1 t2 by (simp add: summaryOf_def)
qed

text \<open>
  C2: for a filtered-in record, when its key has no winner the record becomes the winner and
  the count of its system grows by exactly one (no other count changes); when the key has a
  winner, no count changes and the record replaces the winner exactly when its term-type index
  is strictly lower. For two filtered-in rows of one source and code with indices 2 and 0, both
  arrival orders end with the index-0 row as the winner and a first-occurrence count of one for
  the system.
\<close>

theorem winner_update_and_first_occurrence:
  "(c = new_UmlsConcept line \<and> lookupSource (jsString (SAB c)) = Own src \<and>
    LAT c = Some ''ENG'' \<and> js_includes (tty src) (TTY c) \<and> SUPPRESS c = Some ''N'' \<longrightarrow>
    (\<exists>s'. conceptStep s line = Inr s' \<and>
       (mappedConcepts s (winnerKey c) = None \<longrightarrow>
          mappedConcepts s' (winnerKey c) = Some c \<and>
          counts s' = increment (system src) (counts s) \<and>
          map_of (counts s') =
            (map_of (counts s))(system src \<mapsto>
               (case map_of (counts s) (system src) of None \<Rightarrow> 0 | Some n \<Rightarrow> n) + 1)) \<and>
       (\<forall>w. mappedConcepts s (winnerKey c) = Some w \<longrightarrow>
          counts s' = counts s \<and>
          mappedConcepts s' (winnerKey c) =
            (if indexOf (tty src) (TTY c) < indexOf (tty src) (TTY w) then Some c else Some w))))
   \<and>
   (a = new_UmlsConcept la \<and> b = new_UmlsConcept lb \<and> filteredIn a \<and> filteredIn b \<and>
    winnerKey a = winnerKey b \<and> ttyIndex a = 2 \<and> ttyIndex b = 0 \<and>
    lookupSource (jsString (SAB b)) = Own src' \<longrightarrow>
    (\<exists>r1 r2. processConcepts [la, lb] = Inr r1 \<and> processConcepts [lb, la] = Inr r2 \<and>
       index r1 (winnerKey b) = Some b \<and> index r2 (winnerKey b) = Some b \<and>
       perSystem (report r1) = [(system src', 1)] \<and> perSystem (report r2) = [(system src', 1)]))"
  using step_winner_and_count [of c line src s] two_rows_scenario [of a la b lb src']
  by blast

theorem winner_update_and_first_occurrence_witness:
  "(\<exists>s'. conceptStep initial ''C1|ENG|P|L1|PF|S1|Y|A1||||SNOMEDCT_US|SY|100|syn|0|N'' = Inr s' \<and>
      mappedConcepts s' ''SNOMEDCT_US|100'' =
        Some (new_UmlsConcept ''C1|ENG|P|L1|PF|S1|Y|A1||||SNOMEDCT_US|SY|100|syn|0|N'') \<and>
      counts s' = [(''http://snomed.info/sct'', 1)])
   \<and>
   (\<exists>r1 r2.
      processConcepts [''C1|ENG|P|L1|PF|S1|Y|A1||||SNOMEDCT_US|SY|100|syn|0|N'',
                       ''C1|ENG|P|L2|PF|S2|Y|A2||||SNOMEDCT_US|FN|100|full|0|N''] = Inr r1 \<and>
      processConcepts [''C1|ENG|P|L2|PF|S2|Y|A2||||SNOMEDCT_US|FN|100|full|0|N'',
                       ''C1|ENG|P|L1|PF|S1|Y|A1||||SNOMEDCT_US|SY|100|syn|0|N''] = Inr r2 \<and>
      index r1 ''SNOMEDCT_US|100'' =
        Some (new_UmlsConcept ''C1|ENG|P|L2|PF|S2|Y|A2||||SNOMEDCT_US|FN|100|full|0|N'') \<and>
      index r2 ''SNOMEDCT_US|100'' =
        Some (new_UmlsConcept ''C1|ENG|P|L2|PF|S2|Y|A2||||SNOMEDCT_US|FN|100|full|0|N'') \<and>
      perSystem (report r1) = [(''http://snomed.info/sct'', 1)] \<and>
      perSystem (report r2) = [(''http://snomed.info/sct'', 1)])"
proof -
  let ?la = "''C1|ENG|P|L1|PF|S1|Y|A1||||SNOMEDCT_US|SY|100|syn|0|N''"
  let ?lb = "''C1|ENG|P|L2|PF|S2|Y|A2||||SNOMEDCT_US|FN|100|full|0|N''"
  let ?src = "\<lparr>system = ''http://snomed.info/sct'', tty = [''FN'', ''PT'', ''SY'']\<rparr>"
  have src: "lookupSource ''SNOMEDCT_US'' = Own ?src"
    by (simp add: lookupSource_def umlsSources_def)
  have fa: "SAB (new_UmlsConcept ?la) = Some ''SNOMEDCT_US''" "LAT (new_UmlsConcept ?la) = Some ''ENG''"
    "TTY (new_UmlsConcept ?la) = Some ''SY''" "SUPPRESS (new_UmlsConcept ?la) = Some ''N''"
    "CODE (new_UmlsConcept ?la) = Some ''100''"
    by (simp_all add: new_UmlsConcept_def column_def)
  have fb: "SAB (new_UmlsConcept ?lb) = Some ''SNOMEDCT_US''" "LAT (new_UmlsConcept ?lb) = Some ''ENG''"
    "TTY (new_UmlsConcept ?lb) = Some ''FN''" "SUPPRESS (new_UmlsConcept ?lb) = Some ''N''"
    "CODE (new_UmlsConcept ?lb) = Some ''100''"
    by (simp_all add: new_UmlsConcept_def column_def)
  have h1: "new_UmlsConcept ?la = new_UmlsConcept ?la \<and>
      lookupSource (jsString (SAB (new_UmlsConcept ?la))) = Own ?src \<and>
      LAT (new_UmlsConcept ?la) = Some ''ENG'' \<and> js_includes (tty ?src) (TTY (new_UmlsConcept ?la)) \<and>
      SUPPRESS (new_UmlsConcept ?la) = Some ''N''"
    by (simp add: fa src jsString_def js_includes_def)
  have h2: "new_UmlsConcept ?la = new_UmlsConcept ?la \<and> new_UmlsConcept ?lb = new_UmlsConcept ?lb \<and>
      filteredIn (new_UmlsConcept ?la) \<and> filteredIn (new_UmlsConcept ?lb) \<and>
      winnerKey (new_UmlsConcept ?la) = winnerKey (new_UmlsConcept ?lb) \<and>
      ttyIndex (new_UmlsConcept ?la) = 2 \<and> ttyIndex (new_UmlsConcept ?lb) = 0 \<and>
      lookupSource (jsString (SAB (new_UmlsConcept ?lb))) = Own ?src"
    by (simp add: fa fb src jsString_def js_includes_def filteredIn_def winnerKey_def ttyIndex_def)
  have k: "winnerKey (new_UmlsConcept ?la) = ''SNOMEDCT_US|100''"
    "winnerKey (new_UmlsConcept ?lb) = ''SNOMEDCT_US|100''"
    by (simp_all add: winnerKey_def fa fb jsString_def)
  have m0: "mappedConcepts initial ''SNOMEDCT_US|100'' = None" "counts initial = []"
    by (simp_all add: initial_def)
  note w = winner_update_and_first_occurrence
      [of "new_UmlsConcept ?la" ?la ?src initial "new_UmlsConcept ?la" ?la "new_UmlsConcept ?lb" ?lb ?src]
  have p1: "\<exists>s'. conceptStep initial ?la = Inr s' \<and>
      mappedConcepts s' ''SNOMEDCT_US|100'' = Some (new_UmlsConcept ?la) \<and>
      counts s' = [(''http://snomed.info/sct'', 1)]"
    using w [THEN conjunct1] h1 m0 unfolding k by (auto simp: increment_def)
  have p2: "\<exists>r1 r2. processConcepts [?la, ?lb] = Inr r1 \<and> processConcepts [?lb, ?la] = Inr r2 \<and>
       index r1 ''SNOMEDCT_US|100'' = Some (new_UmlsConcept ?lb) \<and>
       index r2 ''SNOMEDCT_US|100'' = Some (new_UmlsConcept ?lb) \<and>
       perSystem (report r1) = [(''http://snomed.info/sct'', 1)] \<and>
       perSystem (report r2) = [(''http://snomed.info/sct'', 1)]"
    using w [THEN conjunct2] h2 unfolding k by simp
  show ?thesis using p1 p2 by blast
qed

section \<open>Atom keys and winner keys\<close>

lemma rel_AUI_no_pipe:
  "CHR ''|'' \<notin> set (jsString (rel_AUI1 (new_UmlsRelationship rline)))"
  "CHR ''|'' \<notin> set (jsString (rel_AUI2 (new_UmlsRelationship rline)))"
  by (simp_all add: new_UmlsRelationship_def Let_def jsString_column_no_pipe)

lemma index_entries:
  assumes "conceptLoop initial lines = Inr sf" and "mappedConcepts sf k = Some w"
  shows "filteredIn w \<and> (if CHR ''|'' \<in> set k then winnerKey w = k else jsString (AUI w) = k)"
  using indexInv_loop [OF indexInv_initial assms(1)] assms(2) unfolding indexInv_def by blast

text \<open>
  C10: an atom key has no pipe and a winner key has one, so the atom identifiers looked up by
  the relationship pass are never winner keys. One iteration changes a pipe-free key only by
  filing the record under its atom identifier, and changes a key with a pipe only by filing the
  record under its own winner key. After the pass every entry under a pipe-free key is the atom
  of that identifier, and every entry under a key with a pipe is the winner of that key.
\<close>

theorem keyspaces_disjoint:
  "CHR ''|'' \<notin> set (jsString (AUI (new_UmlsConcept line)))
   \<and> CHR ''|'' \<in> set (winnerKey c)
   \<and> CHR ''|'' \<notin> set (jsString (rel_AUI1 (new_UmlsRelationship rline)))
   \<and> CHR ''|'' \<notin> set (jsString (rel_AUI2 (new_UmlsRelationship rline)))
   \<and> jsString (rel_AUI1 (new_UmlsRelationship rline)) \<noteq> winnerKey c
   \<and> jsString (rel_AUI2 (new_UmlsRelationship rline)) \<noteq> winnerKey c
   \<and> (conceptStep s line = Inr s' \<longrightarrow>
        (\<forall>k. CHR ''|'' \<notin> set k \<longrightarrow>
           mappedConcepts s' k =
             (if filteredIn (new_UmlsConcept line) \<and> jsString (AUI (new_UmlsConcept line)) = k
              then Some (new_UmlsConcept line) else mappedConcepts s k)) \<and>
        (\<forall>k. CHR ''|'' \<in> set k \<and> mappedConcepts s' k \<noteq> mappedConcepts s k \<longrightarrow>
           k = winnerKey (new_UmlsConcept line) \<and> mappedConcepts s' k = Some (new_UmlsConcept line)))
   \<and> (conceptLoop initial lines = Inr sf \<and> mappedConcepts sf key = Some w \<longrightarrow>
        (if CHR ''|'' \<in> set key then winnerKey w = key else jsString (AUI w) = key))"
proof -
  have 1: "CHR ''|'' \<notin> set (jsString (AUI (new_UmlsConcept line)))" by (rule AUI_no_pipe)
  have 2: "CHR ''|'' \<in> set (winnerKey c)" by (rule winnerKey_pipe)
  note 3 = rel_AUI_no_pipe [of rline]
  have 4: "jsString (rel_AUI1 (new_UmlsRelationship rline)) \<noteq> winnerKey c"
    "jsString (rel_AUI2 (new_UmlsRelationship rline)) \<noteq> winnerKey c"
    using 2 3 by metis+
  have 5: "mappedConcepts s' k =
             (if filteredIn (new_UmlsConcept line) \<and> jsString (AUI (new_UmlsConcept line)) = k
              then Some (new_UmlsConcept line) else mappedConcepts s k)"
    if "conceptStep s line = Inr s'" and "CHR ''|'' \<notin> set k" for k
    using that(2) winnerKey_pipe [of "new_UmlsConcept line"]
    unfolding conceptStep_index [OF refl that(1), of k] by auto
  have 6: "k = winnerKey (new_UmlsConcept line) \<and> mappedConcepts s' k = Some (new_UmlsConcept line)"
    if "conceptStep s line = Inr s'" and "CHR ''|'' \<in> set k"
      and "mappedConcepts s' k \<noteq> mappedConcepts s k" for k
    using that(2,3) 1 unfolding conceptStep_index [OF refl that(1), of k]
    by (auto split: if_splits option.splits)
  have 7: "if CHR ''|'' \<in> set key then winnerKey w = key else jsString (AUI w) = key"
    if "conceptLoop initial lines = Inr sf" and "mappedConcepts sf key = Some w"
    using index_entries [OF that] by simp
  show ?thesis using 1 2 3 4 5 6 7 by blast
qed

theorem keyspaces_disjoint_witness:
  "\<exists>s'. conceptStep initial ''C1|ENG|P|L1|PF|S1|Y|A1||||SNOMEDCT_US|SY|100|syn|0|N'' = Inr s'
     \<and> mappedConcepts s' ''A1'' = Some (new_UmlsConcept ''C1|ENG|P|L1|PF|S1|Y|A1||||SNOMEDCT_US|SY|100|syn|0|N'')
     \<and> mappedConcepts s' ''A2'' = None
     \<and> jsString (rel_AUI1 (new_UmlsRelationship ''C1|A1|AUI|PAR|C2|A2|AUI||R1||SNOMEDCT_US|SNOMEDCT_US|||N''))
         \<noteq> ''SNOMEDCT_US|100''"
proof -
  let ?l = "''C1|ENG|P|L1|PF|S1|Y|A1||||SNOMEDCT_US|SY|100|syn|0|N''"
  let ?r = "''C1|A1|AUI|PAR|C2|A2|AUI||R1||SNOMEDCT_US|SNOMEDCT_US|||N''"
  obtain s' where s': "conceptStep initial ?l = Inr s'" by (simp add: run_defs)
  have f: "filteredIn (new_UmlsConcept ?l)" "jsString (AUI (new_UmlsConcept ?l)) = ''A1''"
    "winnerKey (new_UmlsConcept ?l) = ''SNOMEDCT_US|100''"
    by (simp_all add: filteredIn_def winnerKey_def run_defs)
  note d = keyspaces_disjoint [of ?l "new_UmlsConcept ?l" ?r initial s' "[?l]" s' "''A1''" "new_UmlsConcept ?l"]
  have a: "mappedConcepts s' ''A1'' = Some (new_UmlsConcept ?l)"
    using d s' f by simp
  have b: "mappedConcepts s' ''A2'' = None"
    using d s' f by (simp add: initial_def)
  have c: "jsString (rel_AUI1 (new_UmlsRelationship ?r)) \<noteq> ''SNOMEDCT_US|100''"
    using d f by simp
  show ?thesis using s' a b c by blast
qed

section \<open>Batches\<close>

lemma openBatch_update: "openBatch (AList.update k v al) y = (if y = k then v else openBatch al y)"
  by (simp add: openBatch_def update_conv')

lemma batchesFor_append: "batchesFor sys (xs @ ys) = batchesFor sys xs @ batchesFor sys ys"
  by (simp add: batchesFor_def)

lemma push_items: "items (push sys x st) y = items st y @ (if y = sys then [x] else [])"
  by (simp add: push_def items_def Let_def openBatch_update batchesFor_append batchesFor_def)

lemma set_update_cases:
  "(y, b) \<in> set (AList.update k v al) \<Longrightarrow> (y, b) = (k, v) \<or> (y, b) \<in> set al"
  by (induction al) (auto split: if_splits)

lemma in_set_openBatch:
  "distinct (map fst al) \<Longrightarrow> (y, b) \<in> set al \<Longrightarrow> openBatch al y = b"
  by (simp add: openBatch_def)

lemma openBatch_length: "\<forall>(y, b) \<in> set al. length b < 500 \<Longrightarrow> length (openBatch al y) < 500"
  by (auto simp: openBatch_def split: option.splits dest!: map_of_SomeD)

lemma push_inv: "batchInv st \<Longrightarrow> batchInv (push sys x st)"
proof -
  assume inv: "batchInv st"
  have l: "length (openBatch (fst st) sys) < 500"
    using inv openBatch_length [of "fst st" sys] by (simp add: batchInv_def)
  show ?thesis
    using inv l unfolding batchInv_def push_def Let_def
    by (auto simp: AList.distinct_update dest!: set_update_cases)
qed

lemma batchInv_empty: "batchInv ([], [])"
  by (simp add: batchInv_def)

lemma batchesFor_distinct:
  "distinct (map fst al) \<Longrightarrow>
   batchesFor sys al = (case map_of al sys of None \<Rightarrow> [] | Some b \<Rightarrow> [b])"
proof (induction al)
  case Nil
  then show ?case by (simp add: batchesFor_def)
next
  case (Cons p al)
  obtain y b where p: "p = (y, b)" by (cases p)
  show ?case
  proof (cases "y = sys")
    case True
    then have "sys \<notin> fst ` set al" using Cons.prems p by auto
    then have "filter (\<lambda>(y, b). y = sys) al = []" by (force simp: filter_empty_conv)
    then show ?thesis using True p by (simp add: batchesFor_def)
  next
    case False
    then show ?thesis using Cons p by (simp add: batchesFor_def)
  qed
qed

lemma batchesFor_filter:
  "batchesFor sys (filter (\<lambda>(y, b). length b > 0) al) =
     filter (\<lambda>b. length b > 0) (batchesFor sys al)"
  by (induction al) (auto simp: batchesFor_def)

lemma batchesFor_nonempty:
  assumes "distinct (map fst al)"
  shows "batchesFor sys (filter (\<lambda>(y, b). length b > 0) al) =
     (if openBatch al sys = [] then [] else [openBatch al sys])"
  unfolding batchesFor_filter batchesFor_distinct [OF assms] openBatch_def
  by (simp split: option.splits)

lemma length_concat_full:
  "\<forall>b \<in> set bs. length b = 500 \<Longrightarrow> length (concat bs) = 500 * length bs"
  by (induction bs) auto

lemma batchesFor_full:
  "\<forall>(y, b) \<in> set snt. length b = 500 \<Longrightarrow> \<forall>b \<in> set (batchesFor sys snt). length b = 500"
  by (auto simp: batchesFor_def)

lemma flush_batches:
  fixes pend snt :: "(string \<times> 'a list) list" and sys :: string
  assumes "batchInv (pend, snt)"
  defines "every \<equiv> snt @ filter (\<lambda>(y, b). length b > 0) pend"
  defines "N \<equiv> length (items (pend, snt) sys)"
  shows "concat (batchesFor sys every) = items (pend, snt) sys"
    and "length (batchesFor sys every) = (N + 499) div 500"
    and "sum_list (map length (batchesFor sys every)) = N"
    and "\<forall>b \<in> set (batchesFor sys snt). length b = 500"
    and "\<forall>b \<in> set (batchesFor sys every). 0 < length b \<and> length b \<le> 500"
    and "\<forall>b \<in> set (butlast (batchesFor sys every)). length b = 500"
proof -
  have d: "distinct (map fst pend)" and full: "\<forall>(y, b) \<in> set snt. length b = 500"
    and small: "\<forall>(y, b) \<in> set pend. length b < 500"
    using assms(1) by (auto simp: batchInv_def)
  have t: "batchesFor sys every =
      batchesFor sys snt @ (if openBatch pend sys = [] then [] else [openBatch pend sys])"
    unfolding every_def batchesFor_append batchesFor_nonempty [OF d] ..
  show c: "concat (batchesFor sys every) = items (pend, snt) sys"
    unfolding t items_def by simp
  have f: "\<forall>b \<in> set (batchesFor sys snt). length b = 500" using batchesFor_full [OF full] .
  show "\<forall>b \<in> set (batchesFor sys snt). length b = 500" by (rule f)
  have p: "length (openBatch pend sys) < 500" using openBatch_length [OF small] .
  have n: "N = 500 * length (batchesFor sys snt) + length (openBatch pend sys)"
    unfolding N_def items_def using length_concat_full [OF f] by simp
  show "length (batchesFor sys every) = (N + 499) div 500"
  proof (cases "openBatch pend sys = []")
    case True
    then show ?thesis unfolding t n by simp
  next
    case False
    then have "0 < length (openBatch pend sys)" by simp
    then have "(500 * length (batchesFor sys snt) + length (openBatch pend sys) + 499) div 500
               = Suc (length (batchesFor sys snt))"
      using p by presburger
    then show ?thesis unfolding t n using False by simp
  qed
  show "sum_list (map length (batchesFor sys every)) = N"
    unfolding N_def c [symmetric] by (simp add: length_concat)
  show "\<forall>b \<in> set (batchesFor sys every). 0 < length b \<and> length b \<le> 500"
    unfolding t using f p by auto
  show "\<forall>b \<in> set (butlast (batchesFor sys every)). length b = 500"
    unfolding t using f by (auto simp: butlast_append dest: in_set_butlastD)
qed

section \<open>Items appended by the concept pass\<close>

lemma pushCoding_push:
  "(codings (pushCoding sys cd s), sent (pushCoding sys cd s)) = push sys cd (codings s, sent s)"
  by (simp add: pushCoding_def push_def Let_def openBatch_def split: option.splits)

lemma pushCoding_emitted:
  "emitted (pushCoding sys cd s) y = emitted s y @ (if y = sys then [cd] else [])"
  unfolding emitted_def pushCoding_push by (rule push_items)

lemma emitted_cong: "codings s' = codings s \<Longrightarrow> sent s' = sent s \<Longrightarrow> emitted s' = emitted s"
  by (simp add: emitted_def)

lemma storeWinner_emitted:
  "emitted (storeWinner src c s) y = emitted s y @ (if y = system src then [codingOf c] else [])"
proof -
  have "emitted (storeWinner src c s) y =
        emitted (pushCoding (system src) (codingOf c)
                   (s\<lparr>mappedConcepts := (mappedConcepts s)(winnerKey c \<mapsto> c)\<rparr>)) y"
    by (simp add: storeWinner_def Let_def emitted_def codingOf_def winnerKey_def)
  also have "\<dots> = emitted (s\<lparr>mappedConcepts := (mappedConcepts s)(winnerKey c \<mapsto> c)\<rparr>) y
                   @ (if y = system src then [codingOf c] else [])"
    by (rule pushCoding_emitted)
  finally show ?thesis by (simp add: emitted_def)
qed

lemma storeWinner_batchInv:
  "batchInv (codings s, sent s) \<Longrightarrow>
   batchInv (codings (storeWinner src c s), sent (storeWinner src c s))"
proof -
  assume "batchInv (codings s, sent s)"
  then have "batchInv (push (system src) (codingOf c) (codings s, sent s))" by (rule push_inv)
  moreover have "(codings (storeWinner src c s), sent (storeWinner src c s)) =
                 push (system src) (codingOf c) (codings s, sent s)"
    using pushCoding_push
      [of "system src" "codingOf c" "s\<lparr>mappedConcepts := (mappedConcepts s)(winnerKey c \<mapsto> c)\<rparr>"]
    by (simp add: storeWinner_def Let_def codingOf_def winnerKey_def)
  ultimately show ?thesis by simp
qed

lemma emitted_update [simp]:
  "emitted (s\<lparr>mappedConcepts := m\<rparr>) = emitted s"
  "emitted (s\<lparr>counts := n\<rparr>) = emitted s"
  "emitted (s\<lparr>skipped := k\<rparr>) = emitted s"
  by (simp_all add: emitted_def)

lemma step_appends:
  assumes c: "c = new_UmlsConcept line" and src: "lookupSource (jsString (SAB c)) = Own src"
    and l: "LAT c = Some ''ENG''" and t: "js_includes (tty src) (TTY c)"
    and su: "SUPPRESS c = Some ''N''"
  shows "\<exists>s'. conceptStep s line = Inr s' \<and>
     (if becomesWinner s c
      then emitted s' (system src) = emitted s (system src) @ [\<lparr>code = CODE c, display = STR' c\<rparr>]
           \<and> (\<forall>y. y \<noteq> system src \<longrightarrow> emitted s' y = emitted s y)
           \<and> processed s' = processed s + 1
      else emitted s' = emitted s \<and> processed s' = processed s)"
  unfolding conceptStep_filteredIn [OF c src l t su] Let_def becomesWinner_def src
  by (auto simp: storeWinner_emitted codingOf_def split: option.splits)

lemma step_batchInv:
  assumes "batchInv (codings s, sent s)" and "conceptStep s line = Inr s'"
  shows "batchInv (codings s', sent s')"
proof (cases "filteredIn (new_UmlsConcept line)")
  case False
  have "s' = s\<lparr>skipped := skipped s'\<rparr>" using conceptStep_not_filteredIn [OF refl False assms(2)] .
  then have "codings s' = codings s \<and> sent s' = sent s"
    by (metis cstate.select_convs(4,6) cstate.surjective cstate.update_convs(2))
  then show ?thesis using assms(1) by simp
next
  case True
  then obtain src where src: "lookupSource (jsString (SAB (new_UmlsConcept line))) = Own src"
    and x: "LAT (new_UmlsConcept line) = Some ''ENG''" "js_includes (tty src) (TTY (new_UmlsConcept line))"
      "SUPPRESS (new_UmlsConcept line) = Some ''N''"
    by (rule filteredIn_cases)
  have sw: "batchInv (codings (storeWinner src cc t), sent (storeWinner src cc t))"
    if "codings t = codings s" "sent t = sent s" for t cc
    using storeWinner_batchInv [of t src cc] that assms(1) by simp
  show ?thesis
    using assms(2) assms(1) unfolding conceptStep_filteredIn [OF refl src x] Let_def
    by (auto split: option.splits if_splits intro!: sw)
qed

lemma conceptLoop_append:
  "conceptLoop s (xs @ ys) =
     (case conceptLoop s xs of Inl e \<Rightarrow> Inl e | Inr s' \<Rightarrow> conceptLoop s' ys)"
  by (induction xs arbitrary: s) (auto split: sum.splits)

lemma becomesWinner_iff:
  assumes pre: "conceptLoop initial pre = Inr s" and c: "c = new_UmlsConcept line"
    and f: "filteredIn c"
  shows "becomesWinner s c \<longleftrightarrow>
     (\<forall>w \<in> set (map new_UmlsConcept pre).
        filteredIn w \<and> winnerKey w = winnerKey c \<longrightarrow> ttyIndex c < ttyIndex w)"
proof -
  let ?k = "winnerKey c"
  obtain src where src: "lookupSource (jsString (SAB c)) = Own src"
    using f by (rule filteredIn_cases)
  have k: "CHR ''|'' \<in> set ?k" by (rule winnerKey_pipe)
  have rhs: "(\<forall>w \<in> set (map new_UmlsConcept pre).
        filteredIn w \<and> winnerKey w = winnerKey c \<longrightarrow> ttyIndex c < ttyIndex w)
     \<longleftrightarrow> (\<forall>w \<in> set (candidates ?k pre). ttyIndex c < ttyIndex w)"
    unfolding candidates_def by auto
  show ?thesis
  proof (cases "candidates ?k pre = []")
    case True
    have "mappedConcepts s ?k = None"
      using winner_loop [OF indexInv_initial pre k] True by (simp add: initial_def)
    then show ?thesis unfolding rhs using True by (simp add: becomesWinner_def src)
  next
    case False
    obtain w where w: "mappedConcepts s ?k = Some w" "w \<in> set (candidates ?k pre)"
        "ttyIndex w = Min (ttyIndex ` set (candidates ?k pre))"
      using loop_final_winner [OF pre False] by blast
    have "winnerKey w = ?k" "filteredIn w" "\<exists>l. w = new_UmlsConcept l"
      using w(2) unfolding candidates_def by auto
    then have "jsString (SAB w) = jsString (SAB c)"
      using same_key_same_source [of w c] SAB_no_pipe c by auto
    then have "indexOf (tty src) (TTY w) = ttyIndex w" "indexOf (tty src) (TTY c) = ttyIndex c"
      by (simp_all add: ttyIndex_def src)
    then have "becomesWinner s c \<longleftrightarrow> ttyIndex c < ttyIndex w"
      by (simp add: becomesWinner_def src w(1))
    also have "\<dots> \<longleftrightarrow> (\<forall>x \<in> set (candidates ?k pre). ttyIndex c < ttyIndex x)"
      unfolding w(3) using False by simp
    finally show ?thesis unfolding rhs .
  qed
qed

lemma step_emitted:
  assumes pre: "conceptLoop initial pre = Inr s" and st: "conceptStep s line = Inr s1"
  shows "emitted s1 sys = emitted s sys @
     map codingOf (filter (\<lambda>c. targetSystem c = sys)
        (winningArrivals (map new_UmlsConcept pre) [new_UmlsConcept line]))"
proof (cases "filteredIn (new_UmlsConcept line)")
  case False
  have "s1 = s\<lparr>skipped := skipped s1\<rparr>" using conceptStep_not_filteredIn [OF refl False st] .
  then have "emitted s1 = emitted s" by (metis emitted_update(3))
  then show ?thesis using False by simp
next
  case True
  let ?c = "new_UmlsConcept line"
  obtain src where src: "lookupSource (jsString (SAB ?c)) = Own src"
    and x: "LAT ?c = Some ''ENG''" "js_includes (tty src) (TTY ?c)" "SUPPRESS ?c = Some ''N''"
    using True by (rule filteredIn_cases)
  have sys: "targetSystem ?c = system src" unfolding targetSystem_def src by (simp add: systemOf_def jsString_def)
  note bw = becomesWinner_iff [OF pre refl True]
  show ?thesis
    using step_appends [OF refl src x, of s] st True sys bw
    by (auto simp: codingOf_def)
qed

lemma loop_emitted:
  assumes "conceptLoop initial pre = Inr s" and "conceptLoop s rest = Inr s'"
  shows "emitted s' sys = emitted s sys @
     map codingOf (filter (\<lambda>c. targetSystem c = sys)
        (winningArrivals (map new_UmlsConcept pre) (map new_UmlsConcept rest)))"
  using assms
proof (induction rest arbitrary: pre s)
  case Nil
  then show ?case by simp
next
  case (Cons line rest)
  from Cons.prems(2) obtain s1 where s1: "conceptStep s line = Inr s1"
    and r: "conceptLoop s1 rest = Inr s'"
    by (auto split: sum.splits)
  have p1: "conceptLoop initial (pre @ [line]) = Inr s1"
    using Cons.prems(1) s1 by (simp add: conceptLoop_append)
  have "emitted s' sys = emitted s1 sys @
     map codingOf (filter (\<lambda>c. targetSystem c = sys)
        (winningArrivals (map new_UmlsConcept (pre @ [line])) (map new_UmlsConcept rest)))"
    using Cons.IH [OF p1 r] .
  then show ?case
    unfolding step_emitted [OF Cons.prems(1) s1, of sys] by simp
qed

lemma loop_batchInv:
  "batchInv (codings s, sent s) \<Longrightarrow> conceptLoop s lines = Inr s' \<Longrightarrow> batchInv (codings s', sent s')"
proof (induction lines arbitrary: s)
  case Nil
  then show ?case by simp
next
  case (Cons line rest)
  then show ?case by (auto split: sum.splits dest: step_batchInv)
qed

lemma initial_batches: "batchInv (codings initial, sent initial)" "emitted initial sys = []"
  by (simp_all add: initial_def batchInv_def emitted_def items_def batchesFor_def openBatch_def)

lemma pass_emitted:
  assumes "conceptLoop initial lines = Inr s"
  shows "emitted s sys = map codingOf (filter (\<lambda>c. targetSystem c = sys)
           (winningArrivals [] (map new_UmlsConcept lines)))"
  using loop_emitted [of "[]" initial lines s sys] assms initial_batches(2) by simp

text \<open>
  C7, as the code has it: a filtered-in record appends its own code and display to the batch
  of its system, and counts as processed, exactly when it becomes the winner of its key (no
  winner yet, or a strictly lower term-type index than the incumbent); otherwise nothing is
  appended and the record is only indexed by its atom identifier. Over a completed pass, the
  items of the batches sent for a system are the codings of the records that became the winner
  on arrival, in stream order.
\<close>

theorem only_winning_arrivals_appended:
  "(c = new_UmlsConcept line \<and> lookupSource (jsString (SAB c)) = Own src \<and>
    LAT c = Some ''ENG'' \<and> js_includes (tty src) (TTY c) \<and> SUPPRESS c = Some ''N'' \<longrightarrow>
    (\<exists>s'. conceptStep s line = Inr s' \<and>
       (if becomesWinner s c
        then emitted s' (system src) = emitted s (system src) @ [\<lparr>code = CODE c, display = STR' c\<rparr>]
             \<and> (\<forall>y. y \<noteq> system src \<longrightarrow> emitted s' y = emitted s y)
             \<and> processed s' = processed s + 1
        else emitted s' = emitted s \<and> processed s' = processed s)))
   \<and>
   (processConcepts lines = Inr r \<longrightarrow>
      concat (batchesFor sys (batches r)) =
        map codingOf (filter (\<lambda>c. targetSystem c = sys)
          (winningArrivals [] (map new_UmlsConcept lines))))"
proof -
  have 2: "concat (batchesFor sys (batches r)) =
        map codingOf (filter (\<lambda>c. targetSystem c = sys)
          (winningArrivals [] (map new_UmlsConcept lines)))"
    if h: "processConcepts lines = Inr r"
  proof -
    obtain sf where sf: "conceptLoop initial lines = Inr sf"
      and r: "r = \<lparr>index = mappedConcepts sf, batches = sent (flushCodings sf), report = summaryOf sf\<rparr>"
      using h unfolding processConcepts_Inr by blast
    have b: "batches r = sent (flushCodings sf)" by (simp add: r)
    have inv: "batchInv (codings sf, sent sf)" using loop_batchInv [OF initial_batches(1) sf] .
    have "concat (batchesFor sys (batches r)) = emitted sf sys"
      unfolding b flushCodings_def emitted_def using flush_batches(1) [OF inv, of sys] by simp
    then show ?thesis using pass_emitted [OF sf] by simp
  qed
  show ?thesis using step_appends [of c line src s] 2 by blast
qed

theorem only_winning_arrivals_appended_witness:
  "(\<exists>s'. conceptStep initial ''C1|ENG|P|L1|PF|S1|Y|A1||||SNOMEDCT_US|SY|100|syn|0|N'' = Inr s' \<and>
      emitted s' ''http://snomed.info/sct'' = [\<lparr>code = Some ''100'', display = Some ''syn''\<rparr>] \<and>
      processed s' = 1)
   \<and>
   (\<exists>r. processConcepts [''C1|ENG|P|L2|PF|S2|Y|A2||||SNOMEDCT_US|FN|100|full|0|N'',
                          ''C1|ENG|P|L1|PF|S1|Y|A1||||SNOMEDCT_US|SY|100|syn|0|N''] = Inr r \<and>
      concat (batchesFor ''http://snomed.info/sct'' (batches r)) =
        [\<lparr>code = Some ''100'', display = Some ''full''\<rparr>])"
proof -
  let ?la = "''C1|ENG|P|L1|PF|S1|Y|A1||||SNOMEDCT_US|SY|100|syn|0|N''"
  let ?lb = "''C1|ENG|P|L2|PF|S2|Y|A2||||SNOMEDCT_US|FN|100|full|0|N''"
  let ?src = "\<lparr>system = ''http://snomed.info/sct'', tty = [''FN'', ''PT'', ''SY'']\<rparr>"
  obtain r where r: "processConcepts [?lb, ?la] = Inr r" by (simp add: run_defs)
  have h1: "new_UmlsConcept ?la = new_UmlsConcept ?la \<and>
      lookupSource (jsString (SAB (new_UmlsConcept ?la))) = Own ?src \<and>
      LAT (new_UmlsConcept ?la) = Some ''ENG'' \<and> js_includes (tty ?src) (TTY (new_UmlsConcept ?la)) \<and>
      SUPPRESS (new_UmlsConcept ?la) = Some ''N''"
    by (simp add: run_defs)
  have bw: "becomesWinner initial (new_UmlsConcept ?la)"
    by (simp add: becomesWinner_def run_defs)
  have e0: "emitted initial y = []" for y by (rule initial_batches(2))
  have f: "CODE (new_UmlsConcept ?la) = Some ''100''" "STR' (new_UmlsConcept ?la) = Some ''syn''"
    "processed initial = 0"
    by (simp_all add: run_defs)
  note w = only_winning_arrivals_appended
    [of "new_UmlsConcept ?la" ?la ?src initial "[?lb, ?la]" r "''http://snomed.info/sct''"]
  have 1: "\<exists>s'. conceptStep initial ?la = Inr s' \<and>
      emitted s' ''http://snomed.info/sct'' = [\<lparr>code = Some ''100'', display = Some ''syn''\<rparr>] \<and>
      processed s' = 1"
    using w [THEN conjunct1, THEN mp, OF h1] bw e0 f by auto
  have a: "map codingOf (filter (\<lambda>c. targetSystem c = ''http://snomed.info/sct'')
          (winningArrivals [] (map new_UmlsConcept [?lb, ?la])))
        = [\<lparr>code = Some ''100'', display = Some ''full''\<rparr>]"
    by (simp add: codingOf_def targetSystem_def systemOf_def filteredIn_def winnerKey_def
        ttyIndex_def run_defs)
  have 2: "concat (batchesFor ''http://snomed.info/sct'' (batches r)) =
        [\<lparr>code = Some ''100'', display = Some ''full''\<rparr>]"
    using w [THEN conjunct2, THEN mp, OF r] unfolding a .
  show ?thesis using 1 2 r by blast
qed


text \<open>
  C7 as stated fails: two filtered-in records of one system and code, the preferred one first;
  the second is filtered in and appends nothing, so one item is sent for two filtered-in
  records.
\<close>

theorem later_less_preferred_record_not_appended:
  "length (filter filteredIn (map new_UmlsConcept
      [''C1|ENG|P|L2|PF|S2|Y|A2||||SNOMEDCT_US|FN|100|full|0|N'',
       ''C1|ENG|P|L1|PF|S1|Y|A1||||SNOMEDCT_US|SY|100|syn|0|N''])) = 2
   \<and> map targetSystem (map new_UmlsConcept
      [''C1|ENG|P|L2|PF|S2|Y|A2||||SNOMEDCT_US|FN|100|full|0|N'',
       ''C1|ENG|P|L1|PF|S1|Y|A1||||SNOMEDCT_US|SY|100|syn|0|N''])
       = [''http://snomed.info/sct'', ''http://snomed.info/sct'']
   \<and> map_sum id batches (processConcepts
      [''C1|ENG|P|L2|PF|S2|Y|A2||||SNOMEDCT_US|FN|100|full|0|N'',
       ''C1|ENG|P|L1|PF|S1|Y|A1||||SNOMEDCT_US|SY|100|syn|0|N''])
       = Inr [(''http://snomed.info/sct'', [\<lparr>code = Some ''100'', display = Some ''full''\<rparr>])]"
  by (simp add: filteredIn_def targetSystem_def systemOf_def run_defs)


lemma concept_batches_counted:
  assumes "conceptLoop initial lines = Inr s"
    and "N = length (filter (\<lambda>c. targetSystem c = sys) (winningArrivals [] (map new_UmlsConcept lines)))"
  shows "concat (batchesFor sys (sent (flushCodings s))) =
       map codingOf (filter (\<lambda>c. targetSystem c = sys)
         (winningArrivals [] (map new_UmlsConcept lines)))
     \<and> length (batchesFor sys (sent (flushCodings s))) = (N + 499) div 500
     \<and> sum_list (map length (batchesFor sys (sent (flushCodings s)))) = N
     \<and> (\<forall>b \<in> set (batchesFor sys (sent s)). length b = 500)
     \<and> (\<forall>b \<in> set (butlast (batchesFor sys (sent (flushCodings s)))). length b = 500)
     \<and> (\<forall>b \<in> set (batchesFor sys (sent (flushCodings s))). 0 < length b \<and> length b \<le> 500)"
proof -
  have inv: "batchInv (codings s, sent s)" using loop_batchInv [OF initial_batches(1) assms(1)] .
  have n: "N = length (items (codings s, sent s) sys)"
    using pass_emitted [OF assms(1), of sys] assms(2) by (simp add: emitted_def)
  have f: "sent (flushCodings s) = sent s @ filter (\<lambda>(y, b). length b > 0) (codings s)"
    by (simp add: flushCodings_def)
  have c: "concat (batchesFor sys (sent s @ filter (\<lambda>(y, b). length b > 0) (codings s))) =
       map codingOf (filter (\<lambda>c. targetSystem c = sys)
         (winningArrivals [] (map new_UmlsConcept lines)))"
    using flush_batches(1) [OF inv, of sys] pass_emitted [OF assms(1), of sys]
    by (simp add: emitted_def)
  note fb = flush_batches(2-6) [OF inv, of sys]
  show ?thesis
    unfolding f n by (intro conjI c fb)
qed

section \<open>Items appended by the attribute pass\<close>

lemma sentByKey_append: "sentByKey (xs @ ys) = sentByKey xs @ sentByKey ys"
  by (simp add: sentByKey_def)

lemma sentByKey_flush:
  "sentByKey (map (\<lambda>(key, fp). (Some key, fp)) bs) = bs"
  by (induction bs) (auto simp: sentByKey_def jsString_def)

lemma batchesFor_Some:
  "\<forall>(y, b) \<in> set bs. y \<noteq> None \<Longrightarrow> batchesFor (Some sys) bs = batchesFor sys (sentByKey bs)"
  by (induction bs) (auto simp: batchesFor_def sentByKey_def jsString_def)

lemma pushProperty_push:
  "\<exists>s'. pushProperty sys p s = Inr s' \<and>
        (properties s', sentByKey (p_sent s')) =
          push (jsString sys) p (properties s, sentByKey (p_sent s)) \<and>
        (p_sent s' = p_sent s \<or> (\<exists>b. p_sent s' = p_sent s @ [(sys, b)])) \<and>
        p_processed s' = p_processed s \<and> p_skipped s' = p_skipped s \<and>
        p_counts s' = p_counts s \<and> warnings s' = warnings s"
  by (simp add: pushProperty_def push_def Let_def openBatch_def sentByKey_def
      split: option.splits)

lemma p_emitted_update [simp]:
  "p_emitted (s\<lparr>p_counts := n\<rparr>) = p_emitted s"
  "p_emitted (s\<lparr>p_skipped := k\<rparr>) = p_emitted s"
  "p_emitted (s\<lparr>p_processed := k\<rparr>) = p_emitted s"
  "p_emitted (s\<lparr>warnings := w\<rparr>) = p_emitted s"
  by (simp_all add: p_emitted_def)

lemma pushProperty_emitted:
  assumes "pushProperty sys p s = Inr s'"
  shows "p_emitted s' y = p_emitted s y @ (if y = jsString sys then [p] else [])"
    and "batchInv (properties s, sentByKey (p_sent s)) \<Longrightarrow>
         batchInv (properties s', sentByKey (p_sent s'))"
    and "sys \<noteq> None \<Longrightarrow> \<forall>(y, b) \<in> set (p_sent s). y \<noteq> None \<Longrightarrow>
         \<forall>(y, b) \<in> set (p_sent s'). y \<noteq> None"
proof -
  have e: "(properties s', sentByKey (p_sent s')) =
             push (jsString sys) p (properties s, sentByKey (p_sent s))"
    and g: "p_sent s' = p_sent s \<or> (\<exists>b. p_sent s' = p_sent s @ [(sys, b)])"
    using pushProperty_push [of sys p s] assms by auto
  show "p_emitted s' y = p_emitted s y @ (if y = jsString sys then [p] else [])"
    unfolding p_emitted_def e by (rule push_items)
  show "batchInv (properties s, sentByKey (p_sent s)) \<Longrightarrow>
        batchInv (properties s', sentByKey (p_sent s'))"
    unfolding e by (rule push_inv)
  show "sys \<noteq> None \<Longrightarrow> \<forall>(y, b) \<in> set (p_sent s). y \<noteq> None \<Longrightarrow>
        \<forall>(y, b) \<in> set (p_sent s'). y \<noteq> None"
    using g by auto
qed

lemma propertyStep_emitted:
  "\<exists>s'. propertyStep res s line = Inr s' \<and>
        p_emitted s' sys = p_emitted s sys @ appendedProperties res sys [line] \<and>
        (batchInv (properties s, sentByKey (p_sent s)) \<longrightarrow>
           batchInv (properties s', sentByKey (p_sent s'))) \<and>
        ((\<forall>(y, b) \<in> set (p_sent s). y \<noteq> None) \<longrightarrow> (\<forall>(y, b) \<in> set (p_sent s'). y \<noteq> None))"
proof -
  let ?attr = "new_UmlsAttribute line"
  let ?source = "lookupSource (jsString (attr_SAB ?attr))"
  show ?thesis
  proof (cases "acceptedProperty res ?attr")
    case None
    then have "propertyStep res s line = Inr s \<or>
               propertyStep res s line = Inr (s\<lparr>p_skipped := p_skipped s + 1\<rparr>)"
      unfolding propertyStep_def acceptedProperty_def Let_def
      by (auto split: lookup.splits option.splits if_splits)
    then show ?thesis using None by auto
  next
    case (Some p)
    then obtain src where src: "?source = Own src" and su: "attr_SUPPRESS ?attr = Some ''N''"
      and f: "(case res src of None \<Rightarrow> None | Some ps \<Rightarrow> find (matchesProperty ?attr) ps) = Some p"
      unfolding acceptedProperty_def by (auto split: lookup.splits if_splits)
    have sy: "systemOf ?source = Some (system src)" by (simp add: systemOf_def src)
    let ?assertion = "\<lparr>prop_code = attr_CODE ?attr, prop_property = property_code p,
                  prop_value = attr_ATV ?attr\<rparr>"
    obtain s1 where s1: "pushProperty (Some (system src)) ?assertion s = Inr s1"
      using pushProperty_push [of "Some (system src)" ?assertion s] by blast
    have st: "propertyStep res s line =
        Inr (s1\<lparr>p_counts := increment (system src @ ''|'' @ jsString (property_code p))
                               (p_counts s1),
                p_processed := p_processed s1 + 1\<rparr>)"
      unfolding propertyStep_def Let_def using src su f s1 sy by (simp add: jsString_def)
    have own: "(\<forall>(y, b) \<in> set (p_sent s). y \<noteq> None) \<longrightarrow> (\<forall>(y, b) \<in> set (p_sent s1). y \<noteq> None)"
      using pushProperty_emitted(3) [OF s1] by blast
    show ?thesis
      unfolding st using pushProperty_emitted(1,2) [OF s1] own Some sy
      by (simp add: Let_def jsString_def)
  qed
qed

lemma propertyLoop_emitted:
  "\<exists>s'. propertyLoop res s lines = Inr s' \<and>
        p_emitted s' sys = p_emitted s sys @ appendedProperties res sys lines \<and>
        (batchInv (properties s, sentByKey (p_sent s)) \<longrightarrow>
           batchInv (properties s', sentByKey (p_sent s'))) \<and>
        ((\<forall>(y, b) \<in> set (p_sent s). y \<noteq> None) \<longrightarrow> (\<forall>(y, b) \<in> set (p_sent s'). y \<noteq> None))"
proof (induction lines arbitrary: s)
  case Nil
  then show ?case by simp
next
  case (Cons line rest)
  obtain s1 where s1: "propertyStep res s line = Inr s1"
      "p_emitted s1 sys = p_emitted s sys @ appendedProperties res sys [line]"
      "batchInv (properties s, sentByKey (p_sent s)) \<longrightarrow>
         batchInv (properties s1, sentByKey (p_sent s1))"
      "(\<forall>(y, b) \<in> set (p_sent s). y \<noteq> None) \<longrightarrow> (\<forall>(y, b) \<in> set (p_sent s1). y \<noteq> None)"
    using propertyStep_emitted [of res s line sys] by blast
  obtain s' where s': "propertyLoop res s1 rest = Inr s'"
      "p_emitted s' sys = p_emitted s1 sys @ appendedProperties res sys rest"
      "batchInv (properties s1, sentByKey (p_sent s1)) \<longrightarrow>
         batchInv (properties s', sentByKey (p_sent s'))"
      "(\<forall>(y, b) \<in> set (p_sent s1). y \<noteq> None) \<longrightarrow> (\<forall>(y, b) \<in> set (p_sent s'). y \<noteq> None)"
    using Cons [of s1] by blast
  have "p_emitted s' sys = p_emitted s sys @ appendedProperties res sys (line # rest)"
    using s1(2) s'(2) by (simp add: Let_def)
  then show ?case using s1(1,3,4) s'(1,3,4) by auto
qed

lemma property_batches_counted:
  assumes "propertyLoop res p_initial lines = Inr s"
    and "N = length (appendedProperties res sys lines)"
  shows "concat (batchesFor (Some sys) (p_sent (flushProperties s))) =
       appendedProperties res sys lines
     \<and> length (batchesFor (Some sys) (p_sent (flushProperties s))) = (N + 499) div 500
     \<and> sum_list (map length (batchesFor (Some sys) (p_sent (flushProperties s)))) = N
     \<and> (\<forall>b \<in> set (batchesFor (Some sys) (p_sent s)). length b = 500)
     \<and> (\<forall>b \<in> set (butlast (batchesFor (Some sys) (p_sent (flushProperties s)))). length b = 500)
     \<and> (\<forall>b \<in> set (batchesFor (Some sys) (p_sent (flushProperties s))).
           0 < length b \<and> length b \<le> 500)
     \<and> (\<forall>(y, b) \<in> set (p_sent (flushProperties s)). y \<noteq> None)"
proof -
  have i0: "batchInv (properties p_initial, sentByKey (p_sent p_initial))"
    "p_emitted p_initial sys = []" "\<forall>(y, b) \<in> set (p_sent p_initial). y \<noteq> None"
    by (simp_all add: p_initial_def batchInv_def p_emitted_def items_def batchesFor_def
        openBatch_def sentByKey_def)
  have inv: "batchInv (properties s, sentByKey (p_sent s))"
    and e: "p_emitted s sys = appendedProperties res sys lines"
    and own: "\<forall>(y, b) \<in> set (p_sent s). y \<noteq> None"
    using propertyLoop_emitted [of res p_initial lines sys] assms(1) i0 by auto
  have n: "N = length (items (properties s, sentByKey (p_sent s)) sys)"
    using e assms(2) by (simp add: p_emitted_def)
  have own': "\<forall>(y, b) \<in> set (p_sent (flushProperties s)). y \<noteq> None"
    using own by (auto simp: flushProperties_def)
  have f: "batchesFor (Some sys) (p_sent (flushProperties s)) =
           batchesFor sys (sentByKey (p_sent s) @ filter (\<lambda>(y, b). length b > 0) (properties s))"
    unfolding batchesFor_Some [OF own']
    by (simp add: flushProperties_def sentByKey_append sentByKey_flush)
  have g: "batchesFor (Some sys) (p_sent s) = batchesFor sys (sentByKey (p_sent s))"
    by (rule batchesFor_Some [OF own])
  have c: "concat (batchesFor sys (sentByKey (p_sent s) @
             filter (\<lambda>(y, b). length b > 0) (properties s))) =
       appendedProperties res sys lines"
    using flush_batches(1) [OF inv, of sys] e by (simp add: p_emitted_def)
  note fb = flush_batches(2-6) [OF inv, of sys]
  show ?thesis
    unfolding f g n by (intro conjI c fb own')
qed

section \<open>Batch capacity\<close>

text \<open>
  C4: when a pass completes, the batches sent for a system number the ceiling of N / 500 for the
  N items appended for that system, their lengths add up to N, every batch sent before the end
  of the stream has exactly 500 items, and so has every batch but the last; no batch is empty
  or longer than 500. Stated for the concept pass and for the attribute pass; in the attribute
  pass the batches of a system are those sent with that system as the value of
  \<^verbatim>\<open>system\<close>, and no batch is sent with an undefined system.
\<close>

theorem batch_capacity:
  "(conceptLoop initial lines = Inr s \<and>
    N = length (filter (\<lambda>c. targetSystem c = sys)
                  (winningArrivals [] (map new_UmlsConcept lines))) \<longrightarrow>
      concat (batchesFor sys (sent (flushCodings s))) =
        map codingOf (filter (\<lambda>c. targetSystem c = sys)
          (winningArrivals [] (map new_UmlsConcept lines)))
      \<and> length (batchesFor sys (sent (flushCodings s))) = (N + 499) div 500
      \<and> sum_list (map length (batchesFor sys (sent (flushCodings s)))) = N
      \<and> (\<forall>b \<in> set (batchesFor sys (sent s)). length b = 500)
      \<and> (\<forall>b \<in> set (butlast (batchesFor sys (sent (flushCodings s)))). length b = 500)
      \<and> (\<forall>b \<in> set (batchesFor sys (sent (flushCodings s))). 0 < length b \<and> length b \<le> 500))
   \<and>
   (propertyLoop res p_initial plines = Inr ps \<and>
    M = length (appendedProperties res sys plines) \<longrightarrow>
      concat (batchesFor (Some sys) (p_sent (flushProperties ps))) =
        appendedProperties res sys plines
      \<and> length (batchesFor (Some sys) (p_sent (flushProperties ps))) = (M + 499) div 500
      \<and> sum_list (map length (batchesFor (Some sys) (p_sent (flushProperties ps)))) = M
      \<and> (\<forall>b \<in> set (batchesFor (Some sys) (p_sent ps)). length b = 500)
      \<and> (\<forall>b \<in> set (butlast (batchesFor (Some sys) (p_sent (flushProperties ps)))).
            length b = 500)
      \<and> (\<forall>b \<in> set (batchesFor (Some sys) (p_sent (flushProperties ps))).
            0 < length b \<and> length b \<le> 500)
      \<and> (\<forall>(y, b) \<in> set (p_sent (flushProperties ps)). y \<noteq> None))"
proof (rule conjI; rule impI; erule conjE)
  assume "conceptLoop initial lines = Inr s"
    and "N = length (filter (\<lambda>c. targetSystem c = sys)
                       (winningArrivals [] (map new_UmlsConcept lines)))"
  then show "concat (batchesFor sys (sent (flushCodings s))) =
        map codingOf (filter (\<lambda>c. targetSystem c = sys)
          (winningArrivals [] (map new_UmlsConcept lines)))
      \<and> length (batchesFor sys (sent (flushCodings s))) = (N + 499) div 500
      \<and> sum_list (map length (batchesFor sys (sent (flushCodings s)))) = N
      \<and> (\<forall>b \<in> set (batchesFor sys (sent s)). length b = 500)
      \<and> (\<forall>b \<in> set (butlast (batchesFor sys (sent (flushCodings s)))). length b = 500)
      \<and> (\<forall>b \<in> set (batchesFor sys (sent (flushCodings s))). 0 < length b \<and> length b \<le> 500)"
    by (rule concept_batches_counted)
next
  assume "propertyLoop res p_initial plines = Inr ps"
    and "M = length (appendedProperties res sys plines)"
  then show "concat (batchesFor (Some sys) (p_sent (flushProperties ps))) =
        appendedProperties res sys plines
      \<and> length (batchesFor (Some sys) (p_sent (flushProperties ps))) = (M + 499) div 500
      \<and> sum_list (map length (batchesFor (Some sys) (p_sent (flushProperties ps)))) = M
      \<and> (\<forall>b \<in> set (batchesFor (Some sys) (p_sent ps)). length b = 500)
      \<and> (\<forall>b \<in> set (butlast (batchesFor (Some sys) (p_sent (flushProperties ps)))).
            length b = 500)
      \<and> (\<forall>b \<in> set (batchesFor (Some sys) (p_sent (flushProperties ps))).
            0 < length b \<and> length b \<le> 500)
      \<and> (\<forall>(y, b) \<in> set (p_sent (flushProperties ps)). y \<noteq> None)"
    by (rule property_batches_counted)
qed

lemmas property_run_defs = propertyStep_def new_UmlsAttribute_def column_def jsString_def
  lookupSource_def umlsSources_def objectPrototypeKeys_def p_initial_def pushProperty_def
  increment_def flushProperties_def matchesProperty_def mappedProperties_def systemOf_def
  exampleResource_def PARENT_PROPERTY_def Let_def

theorem batch_capacity_witness:
  "(\<exists>s. conceptLoop initial [''C1|ENG|P|L1|PF|S1|Y|A1||||SNOMEDCT_US|PT|100|x|0|N''] = Inr s \<and>
        length (batchesFor ''http://snomed.info/sct'' (sent (flushCodings s))) = 1)
   \<and>
   (\<exists>ps. propertyLoop exampleResource p_initial
            [''C1|L1|S1|A1|AUI|1234-5|AT1||LOINC_COMPONENT|LNC|Glucose|N''] = Inr ps \<and>
         length (batchesFor (Some ''http://loinc.org'') (p_sent (flushProperties ps))) = 1)"
proof -
  let ?l = "''C1|ENG|P|L1|PF|S1|Y|A1||||SNOMEDCT_US|PT|100|x|0|N''"
  let ?p = "''C1|L1|S1|A1|AUI|1234-5|AT1||LOINC_COMPONENT|LNC|Glucose|N''"
  obtain s where s: "conceptLoop initial [?l] = Inr s" by (simp add: run_defs)
  obtain ps where ps: "propertyLoop exampleResource p_initial [?p] = Inr ps"
    by (simp add: property_run_defs)
  have n: "length (filter (\<lambda>c. targetSystem c = ''http://snomed.info/sct'')
                  (winningArrivals [] (map new_UmlsConcept [?l]))) = (1::nat)"
    by (simp add: targetSystem_def filteredIn_def systemOf_def run_defs)
  have m: "length (appendedProperties exampleResource ''http://loinc.org'' [?p]) = (1::nat)"
    by (simp add: acceptedProperty_def property_run_defs)
  have h1: "conceptLoop initial [?l] = Inr s \<and>
        (1::nat) = length (filter (\<lambda>c. targetSystem c = ''http://snomed.info/sct'')
                  (winningArrivals [] (map new_UmlsConcept [?l])))"
    by (intro conjI s n [symmetric])
  have h2: "propertyLoop exampleResource p_initial [?p] = Inr ps \<and>
        (1::nat) = length (appendedProperties exampleResource ''http://loinc.org'' [?p])"
    by (intro conjI ps m [symmetric])
  have "length (batchesFor ''http://snomed.info/sct'' (sent (flushCodings s))) = (1 + 499) div 500"
    using batch_capacity [of "[?l]" s 1 "''http://snomed.info/sct''" exampleResource "[?p]" ps 1,
        THEN conjunct1, THEN mp, OF h1, THEN conjunct2, THEN conjunct1] .
  then have 1: "length (batchesFor ''http://snomed.info/sct'' (sent (flushCodings s))) = 1"
    by simp
  have "length (batchesFor (Some ''http://loinc.org'') (p_sent (flushProperties ps))) = (1 + 499) div 500"
    using batch_capacity [of "[?l]" s 1 "''http://loinc.org''" exampleResource "[?p]" ps 1,
        THEN conjunct2, THEN mp, OF h2, THEN conjunct2, THEN conjunct1] .
  then have 2: "length (batchesFor (Some ''http://loinc.org'') (p_sent (flushProperties ps))) = 1"
    by simp
  show ?thesis using s ps 1 2 by blast
qed

section \<open>The counts of the concept pass\<close>

lemma finite_countedKeys: "finite (countedKeys sys lines)"
  unfolding countedKeys_def by simp

lemma countedKeys_snoc:
  "countedKeys sys (pre @ [line]) =
     (if filteredIn (new_UmlsConcept line) \<and> targetSystem (new_UmlsConcept line) = sys
      then insert (winnerKey (new_UmlsConcept line)) (countedKeys sys pre)
      else countedKeys sys pre)"
  unfolding countedKeys_def by auto

lemma key_counted_iff:
  assumes c: "c = new_UmlsConcept line" and f: "filteredIn c"
  shows "winnerKey c \<in> countedKeys (targetSystem c) pre \<longleftrightarrow> candidates (winnerKey c) pre \<noteq> []"
proof
  assume "winnerKey c \<in> countedKeys (targetSystem c) pre"
  then show "candidates (winnerKey c) pre \<noteq> []"
    unfolding countedKeys_def candidates_def by (auto simp: filter_empty_conv)
next
  assume "candidates (winnerKey c) pre \<noteq> []"
  then obtain w where w: "w \<in> set (map new_UmlsConcept pre)" "filteredIn w" "winnerKey w = winnerKey c"
    unfolding candidates_def by (auto simp: filter_empty_conv)
  then have "jsString (SAB w) = jsString (SAB c)"
    using same_key_same_source [of w c] SAB_no_pipe c by auto
  then have "targetSystem w = targetSystem c" by (simp add: targetSystem_def)
  then have "w \<in> set (map new_UmlsConcept pre) \<and> filteredIn w \<and> targetSystem w = targetSystem c
             \<and> winnerKey c = winnerKey w"
    using w by simp
  then show "winnerKey c \<in> countedKeys (targetSystem c) pre"
    unfolding countedKeys_def by blast
qed

lemma distinct_increment: "distinct (map fst cs) \<Longrightarrow> distinct (map fst (increment k cs))"
  by (simp add: increment_def AList.distinct_update)

lemma step_counts:
  assumes c: "c = new_UmlsConcept line" and st: "conceptStep s line = Inr s'"
  shows "counts s' = (if filteredIn c \<and> mappedConcepts s (winnerKey c) = None
                      then increment (targetSystem c) (counts s) else counts s)"
proof (cases "filteredIn c")
  case False
  have "s' = s\<lparr>skipped := skipped s'\<rparr>" using conceptStep_not_filteredIn [OF c False st] .
  then have "counts s' = counts s"
    by (metis cstate.select_convs(3) cstate.surjective cstate.update_convs(2))
  then show ?thesis using False by simp
next
  case True
  then obtain src where src: "lookupSource (jsString (SAB c)) = Own src"
    and x: "LAT c = Some ''ENG''" "js_includes (tty src) (TTY c)" "SUPPRESS c = Some ''N''"
    by (rule filteredIn_cases)
  have sys: "targetSystem c = system src" unfolding targetSystem_def src by (simp add: systemOf_def jsString_def)
  show ?thesis
    using st True sys unfolding conceptStep_filteredIn [OF c src x] Let_def
    by (auto split: option.splits if_splits)
qed

lemma step_countsInv:
  assumes pre: "conceptLoop initial pre = Inr s" and inv: "countsInv s pre"
    and st: "conceptStep s line = Inr s'"
  shows "countsInv s' (pre @ [line])"
proof -
  let ?c = "new_UmlsConcept line"
  let ?k = "winnerKey ?c"
  have k: "CHR ''|'' \<in> set ?k" by (rule winnerKey_pipe)
  have none: "mappedConcepts s ?k = None \<longleftrightarrow> candidates ?k pre = []"
  proof (cases "candidates ?k pre = []")
    case True
    then show ?thesis
      using winner_loop [OF indexInv_initial pre k] by (simp add: initial_def)
  next
    case False
    then show ?thesis using loop_final_winner [OF pre False] by auto
  qed
  show ?thesis
  proof (cases "filteredIn ?c")
    case False
    then show ?thesis
      using inv unfolding countsInv_def step_counts [OF refl st] countedKeys_snoc by simp
  next
    case True
    show ?thesis
    proof (cases "?k \<in> countedKeys (targetSystem ?c) pre")
      case in_K: True
      then have "mappedConcepts s ?k \<noteq> None"
        using none key_counted_iff [OF refl True, of pre] by simp
      moreover have "insert ?k (countedKeys (targetSystem ?c) pre) = countedKeys (targetSystem ?c) pre"
        using in_K by auto
      ultimately show ?thesis
        using inv True unfolding countsInv_def step_counts [OF refl st] countedKeys_snoc by auto
    next
      case not_K: False
      then have m: "mappedConcepts s ?k = None"
        using none key_counted_iff [OF refl True, of pre] by simp
      have cnt: "counts s' = increment (targetSystem ?c) (counts s)"
        using step_counts [OF refl st] True m by simp
      have old: "(case map_of (counts s) (targetSystem ?c) of None \<Rightarrow> 0 | Some n \<Rightarrow> n)
                 = card (countedKeys (targetSystem ?c) pre)"
        using inv unfolding countsInv_def by simp
      have new: "card (insert ?k (countedKeys (targetSystem ?c) pre))
                 = card (countedKeys (targetSystem ?c) pre) + 1"
        using not_K finite_countedKeys by simp
      show ?thesis
        unfolding countsInv_def cnt increment_lookup old countedKeys_snoc
        using inv True new distinct_increment [of "counts s" "targetSystem ?c"]
        by (auto simp: countsInv_def)
    qed
  qed
qed

lemma loop_countsInv:
  assumes "conceptLoop initial pre = Inr s" and "countsInv s pre" and "conceptLoop s rest = Inr s'"
  shows "countsInv s' (pre @ rest)"
  using assms
proof (induction rest arbitrary: pre s)
  case Nil
  then show ?case by simp
next
  case (Cons line rest)
  from Cons.prems(3) obtain s1 where s1: "conceptStep s line = Inr s1"
    and r: "conceptLoop s1 rest = Inr s'"
    by (auto split: sum.splits)
  have p1: "conceptLoop initial (pre @ [line]) = Inr s1"
    using Cons.prems(1) s1 by (simp add: conceptLoop_append)
  have i1: "countsInv s1 (pre @ [line])" using step_countsInv [OF Cons.prems(1,2) s1] .
  show ?case using Cons.IH [OF p1 i1 r] by simp
qed

lemma pass_countsInv:
  assumes "conceptLoop initial lines = Inr s"
  shows "countsInv s lines"
proof -
  have "countsInv initial []" by (simp add: countsInv_def initial_def countedKeys_def)
  then show ?thesis using loop_countsInv [of "[]" initial lines s] assms by simp
qed

lemma step_skipped:
  assumes "conceptStep s line = Inr s'"
  shows "skipped s' = skipped s + (if skipCounted line then 1 else 0)"
  using assms unfolding conceptStep_def Let_def skipCounted_def reachesSuppressCheck_def
  by (auto split: lookup.splits if_splits option.splits)

lemma loop_skipped:
  "conceptLoop s lines = Inr s' \<Longrightarrow> skipped s' = skipped s + length (filter skipCounted lines)"
proof (induction lines arbitrary: s)
  case Nil
  then show ?case by simp
next
  case (Cons line rest)
  from Cons.prems obtain s1 where s1: "conceptStep s line = Inr s1"
    and r: "conceptLoop s1 rest = Inr s'"
    by (auto split: sum.splits)
  show ?case using Cons.IH [OF r] step_skipped [OF s1] by simp
qed

lemma countedKeys_perm: "mset lines' = mset lines \<Longrightarrow> countedKeys sys lines' = countedKeys sys lines"
  unfolding countedKeys_def using mset_eq_setD [of lines' lines] by simp

lemma counts_perm:
  assumes "conceptLoop initial lines = Inr s" and "conceptLoop initial lines' = Inr s'"
    and "mset lines' = mset lines"
  shows "mset (counts s') = mset (counts s)"
proof -
  have i: "countsInv s lines" and i': "countsInv s' lines'"
    using pass_countsInv assms(1,2) by auto
  have "map_of (counts s') = map_of (counts s)"
    using i i' countedKeys_perm [OF assms(3)] unfolding countsInv_def by (intro ext) simp
  moreover have d: "distinct (map fst (counts s))" "distinct (map fst (counts s'))"
    using i i' unfolding countsInv_def by auto
  ultimately have "set (counts s') = set (counts s)"
    using map_of_inject_set by blast
  moreover have "distinct (counts s)" "distinct (counts s')"
    using d by (auto simp: distinct_map)
  ultimately show ?thesis using set_eq_iff_mset_eq_distinct by blast
qed

text \<open>
  The processed total of the concept pass counts the records that became the winner on arrival,
  so it depends on the order of the stream: the same two rows of one code are both counted when
  the less preferred one comes first, and only one of them when it comes second.
\<close>

lemma processed_total_depends_on_arrival:
  "map_sum id (\<lambda>r. totalProcessed (report r)) (processConcepts
      [''C1|ENG|P|L1|PF|S1|Y|A1||||SNOMEDCT_US|SY|100|syn|0|N'',
       ''C1|ENG|P|L2|PF|S2|Y|A2||||SNOMEDCT_US|FN|100|full|0|N'']) = Inr 2
   \<and> map_sum id (\<lambda>r. totalProcessed (report r)) (processConcepts
      [''C1|ENG|P|L2|PF|S2|Y|A2||||SNOMEDCT_US|FN|100|full|0|N'',
       ''C1|ENG|P|L1|PF|S1|Y|A1||||SNOMEDCT_US|SY|100|syn|0|N'']) = Inr 1"
  by (simp add: run_defs)

section \<open>Relationship pass\<close>

lemmas relationship_run_defs = relationshipStep_def new_UmlsRelationship_def column_def
  jsString_def lookupSource_def umlsSources_def objectPrototypeKeys_def p_initial_def
  pushProperty_def increment_def systemOf_def propertyNameOf_def findPropertyCode_def truthy_def
  atomCode_def exampleResource_def PARENT_PROPERTY_def CHILD_PROPERTY_def Let_def


lemma relationshipStep_mapped:
  assumes rel: "rel = new_UmlsRelationship line"
    and src: "lookupSource (jsString (rel_SAB rel)) = Own src"
    and su: "rel_SUPPRESS rel = Some ''N''"
    and pn: "propertyNameOf rp res (Own src) rel = Inr pn" and t: "truthy pn"
  shows "\<exists>s'. relationshipStep rp mc res s line = Inr s' \<and>
     (if truthy (atomCode mc (rel_AUI1 rel)) \<and> truthy (atomCode mc (rel_AUI2 rel))
      then p_emitted s' (system src) = p_emitted s (system src) @
             [\<lparr>prop_code = atomCode mc (rel_AUI1 rel), prop_property = pn,
               prop_value = atomCode mc (rel_AUI2 rel)\<rparr>]
           \<and> (\<forall>y. y \<noteq> system src \<longrightarrow> p_emitted s' y = p_emitted s y)
           \<and> p_skipped s' = p_skipped s \<and> warnings s' = warnings s
           \<and> p_processed s' = p_processed s + 1
      else s' = s\<lparr>warnings := warnings s @
                     [(jsString pn, jsString (rel_REL rel) @ ''/'' @ jsString (rel_RELA rel),
                       if truthy (atomCode mc (rel_AUI1 rel)) then rel_AUI2 rel else rel_AUI1 rel)],
                   p_skipped := p_skipped s + 1\<rparr>)"
proof (cases "truthy (atomCode mc (rel_AUI1 rel)) \<and> truthy (atomCode mc (rel_AUI2 rel))")
  case False
  then show ?thesis
    unfolding relationshipStep_def Let_def rel [symmetric] src using su pn t by auto
next
  case True
  let ?a = "\<lparr>prop_code = atomCode mc (rel_AUI1 rel), prop_property = pn,
             prop_value = atomCode mc (rel_AUI2 rel)\<rparr>"
  obtain s1 where s1: "pushProperty (Some (system src)) ?a s = Inr s1"
    and f: "p_processed s1 = p_processed s" "p_skipped s1 = p_skipped s" "warnings s1 = warnings s"
    using pushProperty_push [of "Some (system src)" ?a s] by blast
  have st: "relationshipStep rp mc res s line =
      Inr (s1\<lparr>p_counts := increment (system src @ ''|'' @ jsString pn @ '' ('' @
                   jsString (rel_REL rel) @ ''/'' @ jsString (rel_RELA rel) @ '')'') (p_counts s1),
              p_processed := p_processed s1 + 1\<rparr>)"
    unfolding relationshipStep_def Let_def rel [symmetric] src using su pn t True s1
    by (simp add: systemOf_def jsString_def)
  show ?thesis
    unfolding st using True pushProperty_emitted(1) [OF s1] f by (simp add: jsString_def)
qed

lemma relationshipStep_unmapped:
  assumes rel: "rel = new_UmlsRelationship line"
    and src: "lookupSource (jsString (rel_SAB rel)) = Own src"
    and su: "rel_SUPPRESS rel = Some ''N''"
    and pn: "propertyNameOf rp res (Own src) rel = Inr pn" and t: "\<not> truthy pn"
  shows "relationshipStep rp mc res s line = Inr s"
  unfolding relationshipStep_def Let_def rel [symmetric] src using su pn t by simp

lemma find_first:
  "\<forall>q \<in> set pre. \<not> P q \<Longrightarrow> P p \<Longrightarrow> find P (pre @ p # post) = Some p"
  by (induction pre) simp_all

lemma findPropertyCode_first:
  assumes "props = Some (pre @ p # post)"
    and "\<forall>q \<in> set pre. property_uri q \<noteq> Some u" and "property_uri p = Some u"
  shows "findPropertyCode props u = (case property_code p of None \<Rightarrow> [] | Some n \<Rightarrow> n)"
  unfolding findPropertyCode_def assms(1)
  using find_first [of pre "\<lambda>p. property_uri p = Some u" p post] assms(2,3) by simp

lemma findPropertyCode_none:
  assumes "props = None \<or> (\<exists>ps. props = Some ps \<and> (\<forall>q \<in> set ps. property_uri q \<noteq> Some u))"
  shows "findPropertyCode props u = []"
proof -
  have "find (\<lambda>p. property_uri p = Some u) ps = None"
    if "\<forall>q \<in> set ps. property_uri q \<noteq> Some u" for ps :: "CodeSystemProperty list"
    using that by (induction ps) simp_all
  then show ?thesis using assms by (auto simp: findPropertyCode_def)
qed

text \<open>
  C8, as the code has it. A filtered-in relationship record is handled under a property name
  \<open>n\<close> when, if both of its atoms have a code, one assertion with the two codes and the
  property \<open>n\<close> is appended for the system of its source and nothing else is appended, and
  otherwise the record is skipped with a warning that carries \<open>n\<close>. The name is (a) the
  Stage-A entry under SAB/REL/RELA when that entry is a non-empty name; otherwise (b), when REL
  is PAR, the code of the first property of the source's resource whose uri is the
  parent-property uri; otherwise (c), when REL is CHD, the code of the first property whose
  uri is the child-property uri. The record is rejected as unmappable, the iteration leaving
  the state as it is, when there is no non-empty Stage-A entry and REL is neither PAR nor CHD,
  or REL is PAR or CHD and the resource has no property of that uri, or the first such
  property has no code or an empty one.
\<close>

theorem property_code_resolution_order:
  assumes "rel = new_UmlsRelationship line"
    and "lookupSource (jsString (rel_SAB rel)) = Own src"
    and "rel_SUPPRESS rel = Some ''N''"
    and "key = jsString (rel_SAB rel) @ ''/'' @ jsString (rel_REL rel) @ ''/'' @ jsString (rel_RELA rel)"
    and "r = relationshipStep rp mc res s line"
    and "handledUnder = (\<lambda>n.
           if truthy (atomCode mc (rel_AUI1 rel)) \<and> truthy (atomCode mc (rel_AUI2 rel))
           then \<exists>s'. r = Inr s' \<and>
                  p_emitted s' (system src) = p_emitted s (system src) @
                    [\<lparr>prop_code = atomCode mc (rel_AUI1 rel), prop_property = Some n,
                      prop_value = atomCode mc (rel_AUI2 rel)\<rparr>] \<and>
                  (\<forall>y. y \<noteq> system src \<longrightarrow> p_emitted s' y = p_emitted s y) \<and>
                  p_skipped s' = p_skipped s \<and> warnings s' = warnings s
           else r = Inr (s\<lparr>warnings := warnings s @
                              [(n, jsString (rel_REL rel) @ ''/'' @ jsString (rel_RELA rel),
                                if truthy (atomCode mc (rel_AUI1 rel)) then rel_AUI2 rel
                                else rel_AUI1 rel)],
                            p_skipped := p_skipped s + 1\<rparr>))"
  shows "(\<forall>n. rp key = Some n \<and> n \<noteq> [] \<longrightarrow> handledUnder n)
     \<and> ((rp key = None \<or> rp key = Some []) \<and> rel_REL rel = Some ''PAR'' \<longrightarrow>
          (\<forall>pre p post.
             res src = Some (pre @ p # post) \<and>
             (\<forall>q \<in> set pre. property_uri q \<noteq> Some PARENT_PROPERTY) \<and>
             property_uri p = Some PARENT_PROPERTY \<longrightarrow>
               (\<forall>n. property_code p = Some n \<and> n \<noteq> [] \<longrightarrow> handledUnder n) \<and>
               (property_code p = None \<or> property_code p = Some [] \<longrightarrow> r = Inr s)) \<and>
          (res src = None \<or>
           (\<exists>ps. res src = Some ps \<and> (\<forall>q \<in> set ps. property_uri q \<noteq> Some PARENT_PROPERTY))
             \<longrightarrow> r = Inr s))
     \<and> ((rp key = None \<or> rp key = Some []) \<and> rel_REL rel = Some ''CHD'' \<longrightarrow>
          (\<forall>pre p post.
             res src = Some (pre @ p # post) \<and>
             (\<forall>q \<in> set pre. property_uri q \<noteq> Some CHILD_PROPERTY) \<and>
             property_uri p = Some CHILD_PROPERTY \<longrightarrow>
               (\<forall>n. property_code p = Some n \<and> n \<noteq> [] \<longrightarrow> handledUnder n) \<and>
               (property_code p = None \<or> property_code p = Some [] \<longrightarrow> r = Inr s)) \<and>
          (res src = None \<or>
           (\<exists>ps. res src = Some ps \<and> (\<forall>q \<in> set ps. property_uri q \<noteq> Some CHILD_PROPERTY))
             \<longrightarrow> r = Inr s))
     \<and> ((rp key = None \<or> rp key = Some []) \<and>
        rel_REL rel \<noteq> Some ''PAR'' \<and> rel_REL rel \<noteq> Some ''CHD'' \<longrightarrow> r = Inr s)"
proof -
  have named: "handledUnder n"
    if pn: "propertyNameOf rp res (Own src) rel = Inr (Some n)" and n: "n \<noteq> []" for n
  proof -
    have t: "truthy (Some n)" using n by (simp add: truthy_def)
    show ?thesis
      using relationshipStep_mapped [OF assms(1-3) pn t, of mc s]
      unfolding assms(5,6) by (auto simp: jsString_def)
  qed
  have unnamed: "r = Inr s"
    if pn: "propertyNameOf rp res (Own src) rel = Inr pn" and n: "\<not> truthy pn" for pn
    unfolding assms(5) using relationshipStep_unmapped [OF assms(1-3) pn n] .
  have stage: "propertyNameOf rp res (Own src) rel = Inr (Some n)"
    if "rp key = Some n" "n \<noteq> []" for n
    using that unfolding propertyNameOf_def Let_def assms(4) [symmetric]
    by (simp add: truthy_def)
  have other: "propertyNameOf rp res (Own src) rel =
      Inr (if rel_REL rel = Some ''PAR'' then Some (findPropertyCode (res src) PARENT_PROPERTY)
           else if rel_REL rel = Some ''CHD'' then Some (findPropertyCode (res src) CHILD_PROPERTY)
           else None)"
    if "rp key = None \<or> rp key = Some []"
    using that unfolding propertyNameOf_def Let_def assms(4) [symmetric]
    by (auto simp: truthy_def)
  have 1: "\<forall>n. rp key = Some n \<and> n \<noteq> [] \<longrightarrow> handledUnder n"
    using named stage by blast
  have hier: "(\<forall>pre p post.
             res src = Some (pre @ p # post) \<and>
             (\<forall>q \<in> set pre. property_uri q \<noteq> Some u) \<and> property_uri p = Some u \<longrightarrow>
               (\<forall>n. property_code p = Some n \<and> n \<noteq> [] \<longrightarrow> handledUnder n) \<and>
               (property_code p = None \<or> property_code p = Some [] \<longrightarrow> r = Inr s)) \<and>
          (res src = None \<or>
           (\<exists>ps. res src = Some ps \<and> (\<forall>q \<in> set ps. property_uri q \<noteq> Some u)) \<longrightarrow> r = Inr s)"
    if pn: "propertyNameOf rp res (Own src) rel = Inr (Some (findPropertyCode (res src) u))"
    for u
  proof (intro conjI allI impI)
    fix pre p post n
    assume d: "res src = Some (pre @ p # post) \<and>
               (\<forall>q \<in> set pre. property_uri q \<noteq> Some u) \<and> property_uri p = Some u"
      and c: "property_code p = Some n \<and> n \<noteq> []"
    have "findPropertyCode (res src) u = n"
      using findPropertyCode_first [of "res src" pre p post u] d c by simp
    then show "handledUnder n" using named [of n] pn c by simp
  next
    fix pre p post
    assume d: "res src = Some (pre @ p # post) \<and>
               (\<forall>q \<in> set pre. property_uri q \<noteq> Some u) \<and> property_uri p = Some u"
      and c: "property_code p = None \<or> property_code p = Some []"
    have "findPropertyCode (res src) u = []"
      using findPropertyCode_first [of "res src" pre p post u] d c by auto
    then show "r = Inr s" using unnamed [OF pn] by (simp add: truthy_def)
  next
    assume "res src = None \<or>
            (\<exists>ps. res src = Some ps \<and> (\<forall>q \<in> set ps. property_uri q \<noteq> Some u))"
    then have "findPropertyCode (res src) u = []" by (rule findPropertyCode_none)
    then show "r = Inr s" using unnamed [OF pn] by (simp add: truthy_def)
  qed
  have 2: "(rp key = None \<or> rp key = Some []) \<and> rel_REL rel = Some ''PAR'' \<longrightarrow>
          (\<forall>pre p post.
             res src = Some (pre @ p # post) \<and>
             (\<forall>q \<in> set pre. property_uri q \<noteq> Some PARENT_PROPERTY) \<and>
             property_uri p = Some PARENT_PROPERTY \<longrightarrow>
               (\<forall>n. property_code p = Some n \<and> n \<noteq> [] \<longrightarrow> handledUnder n) \<and>
               (property_code p = None \<or> property_code p = Some [] \<longrightarrow> r = Inr s)) \<and>
          (res src = None \<or>
           (\<exists>ps. res src = Some ps \<and> (\<forall>q \<in> set ps. property_uri q \<noteq> Some PARENT_PROPERTY))
             \<longrightarrow> r = Inr s)"
  proof
    assume h: "(rp key = None \<or> rp key = Some []) \<and> rel_REL rel = Some ''PAR''"
    have "propertyNameOf rp res (Own src) rel =
            Inr (Some (findPropertyCode (res src) PARENT_PROPERTY))"
      using other h by simp
    then show "(\<forall>pre p post.
             res src = Some (pre @ p # post) \<and>
             (\<forall>q \<in> set pre. property_uri q \<noteq> Some PARENT_PROPERTY) \<and>
             property_uri p = Some PARENT_PROPERTY \<longrightarrow>
               (\<forall>n. property_code p = Some n \<and> n \<noteq> [] \<longrightarrow> handledUnder n) \<and>
               (property_code p = None \<or> property_code p = Some [] \<longrightarrow> r = Inr s)) \<and>
          (res src = None \<or>
           (\<exists>ps. res src = Some ps \<and> (\<forall>q \<in> set ps. property_uri q \<noteq> Some PARENT_PROPERTY))
             \<longrightarrow> r = Inr s)"
      by (rule hier)
  qed
  have 3: "(rp key = None \<or> rp key = Some []) \<and> rel_REL rel = Some ''CHD'' \<longrightarrow>
          (\<forall>pre p post.
             res src = Some (pre @ p # post) \<and>
             (\<forall>q \<in> set pre. property_uri q \<noteq> Some CHILD_PROPERTY) \<and>
             property_uri p = Some CHILD_PROPERTY \<longrightarrow>
               (\<forall>n. property_code p = Some n \<and> n \<noteq> [] \<longrightarrow> handledUnder n) \<and>
               (property_code p = None \<or> property_code p = Some [] \<longrightarrow> r = Inr s)) \<and>
          (res src = None \<or>
           (\<exists>ps. res src = Some ps \<and> (\<forall>q \<in> set ps. property_uri q \<noteq> Some CHILD_PROPERTY))
             \<longrightarrow> r = Inr s)"
  proof
    assume h: "(rp key = None \<or> rp key = Some []) \<and> rel_REL rel = Some ''CHD''"
    have "propertyNameOf rp res (Own src) rel =
            Inr (Some (findPropertyCode (res src) CHILD_PROPERTY))"
      using other h by simp
    then show "(\<forall>pre p post.
             res src = Some (pre @ p # post) \<and>
             (\<forall>q \<in> set pre. property_uri q \<noteq> Some CHILD_PROPERTY) \<and>
             property_uri p = Some CHILD_PROPERTY \<longrightarrow>
               (\<forall>n. property_code p = Some n \<and> n \<noteq> [] \<longrightarrow> handledUnder n) \<and>
               (property_code p = None \<or> property_code p = Some [] \<longrightarrow> r = Inr s)) \<and>
          (res src = None \<or>
           (\<exists>ps. res src = Some ps \<and> (\<forall>q \<in> set ps. property_uri q \<noteq> Some CHILD_PROPERTY))
             \<longrightarrow> r = Inr s)"
      by (rule hier)
  qed
  have 4: "(rp key = None \<or> rp key = Some []) \<and>
        rel_REL rel \<noteq> Some ''PAR'' \<and> rel_REL rel \<noteq> Some ''CHD'' \<longrightarrow> r = Inr s"
  proof
    assume h: "(rp key = None \<or> rp key = Some []) \<and>
        rel_REL rel \<noteq> Some ''PAR'' \<and> rel_REL rel \<noteq> Some ''CHD''"
    have "propertyNameOf rp res (Own src) rel = Inr None" using other h by simp
    then show "r = Inr s" using unnamed [of None] by (simp add: truthy_def)
  qed
  show ?thesis by (intro conjI 1 2 3 4)
qed

theorem property_code_resolution_order_witness:
  "(\<exists>s'. relationshipStep [''SNOMEDCT_US/RO/has_finding_site'' \<mapsto> ''363698007'']
            [''A1'' \<mapsto> new_UmlsConcept ''C1|ENG|P|L1|PF|S1|Y|A1||||SNOMEDCT_US|PT|100|x|0|N'',
             ''A2'' \<mapsto> new_UmlsConcept ''C2|ENG|P|L2|PF|S2|Y|A2||||SNOMEDCT_US|PT|200|y|0|N'']
            exampleResource p_initial
            ''C1|A1|AUI|RO|C2|A2|AUI|has_finding_site|R1||SNOMEDCT_US|SNOMEDCT_US|||N'' = Inr s' \<and>
         p_emitted s' ''http://snomed.info/sct'' =
           [\<lparr>prop_code = Some ''100'', prop_property = Some ''363698007'',
             prop_value = Some ''200''\<rparr>])
   \<and> (\<exists>s'. relationshipStep Map.empty
            [''A1'' \<mapsto> new_UmlsConcept ''C1|ENG|P|L1|PF|S1|Y|A1||||SNOMEDCT_US|PT|100|x|0|N'',
             ''A2'' \<mapsto> new_UmlsConcept ''C2|ENG|P|L2|PF|S2|Y|A2||||SNOMEDCT_US|PT|200|y|0|N'']
            exampleResource p_initial
            ''C1|A1|AUI|PAR|C2|A2|AUI||R1||SNOMEDCT_US|SNOMEDCT_US|||N'' = Inr s' \<and>
         p_emitted s' ''http://snomed.info/sct'' =
           [\<lparr>prop_code = Some ''100'', prop_property = Some ''parent'',
             prop_value = Some ''200''\<rparr>])
   \<and> (\<exists>s'. relationshipStep Map.empty
            [''A1'' \<mapsto> new_UmlsConcept ''C1|ENG|P|L1|PF|S1|Y|A1||||SNOMEDCT_US|PT|100|x|0|N'',
             ''A2'' \<mapsto> new_UmlsConcept ''C2|ENG|P|L2|PF|S2|Y|A2||||SNOMEDCT_US|PT|200|y|0|N'']
            exampleResource p_initial
            ''C1|A1|AUI|CHD|C2|A2|AUI||R1||SNOMEDCT_US|SNOMEDCT_US|||N'' = Inr s' \<and>
         p_emitted s' ''http://snomed.info/sct'' =
           [\<lparr>prop_code = Some ''100'', prop_property = Some ''child'',
             prop_value = Some ''200''\<rparr>])
   \<and> relationshipStep Map.empty
         [''A1'' \<mapsto> new_UmlsConcept ''C1|ENG|P|L1|PF|S1|Y|A1||||SNOMEDCT_US|PT|100|x|0|N'']
         exampleResource p_initial
         ''C1|A1|AUI|CHD|C2|A2|AUI||R1||SNOMEDCT_US|SNOMEDCT_US|||N''
       = Inr (p_initial\<lparr>warnings := [(''child'', ''CHD/'', Some ''A2'')], p_skipped := 1\<rparr>)
   \<and> relationshipStep Map.empty
         [''A1'' \<mapsto> new_UmlsConcept ''C1|ENG|P|L1|PF|S1|Y|A1||||SNOMEDCT_US|PT|100|x|0|N'',
          ''A2'' \<mapsto> new_UmlsConcept ''C2|ENG|P|L2|PF|S2|Y|A2||||SNOMEDCT_US|PT|200|y|0|N'']
         exampleResource p_initial
         ''C1|A1|AUI|RB|C2|A2|AUI||R1||SNOMEDCT_US|SNOMEDCT_US|||N'' = Inr p_initial"
proof -
  let ?src = "\<lparr>system = ''http://snomed.info/sct'', tty = [''FN'', ''PT'', ''SY'']\<rparr>"
  let ?l1 = "''C1|A1|AUI|RO|C2|A2|AUI|has_finding_site|R1||SNOMEDCT_US|SNOMEDCT_US|||N''"
  let ?l2 = "''C1|A1|AUI|PAR|C2|A2|AUI||R1||SNOMEDCT_US|SNOMEDCT_US|||N''"
  let ?l3 = "''C1|A1|AUI|CHD|C2|A2|AUI||R1||SNOMEDCT_US|SNOMEDCT_US|||N''"
  let ?l4 = "''C1|A1|AUI|RB|C2|A2|AUI||R1||SNOMEDCT_US|SNOMEDCT_US|||N''"
  let ?rp = "[''SNOMEDCT_US/RO/has_finding_site'' \<mapsto> ''363698007'']"
  let ?mc = "[''A1'' \<mapsto> new_UmlsConcept ''C1|ENG|P|L1|PF|S1|Y|A1||||SNOMEDCT_US|PT|100|x|0|N'',
              ''A2'' \<mapsto> new_UmlsConcept ''C2|ENG|P|L2|PF|S2|Y|A2||||SNOMEDCT_US|PT|200|y|0|N'']"
  let ?mc1 = "[''A1'' \<mapsto> new_UmlsConcept ''C1|ENG|P|L1|PF|S1|Y|A1||||SNOMEDCT_US|PT|100|x|0|N'']"
  let ?component = "\<lparr>property_code = Some ''COMPONENT'', property_uri = None\<rparr>"
  let ?child = "\<lparr>property_code = Some ''child'', property_uri = Some CHILD_PROPERTY\<rparr>"
  let ?parent = "\<lparr>property_code = Some ''parent'', property_uri = Some PARENT_PROPERTY\<rparr>"
  have f1: "rel_SAB (new_UmlsRelationship ?l1) = Some ''SNOMEDCT_US''"
    "rel_SUPPRESS (new_UmlsRelationship ?l1) = Some ''N''"
    "rel_REL (new_UmlsRelationship ?l1) = Some ''RO''"
    "rel_RELA (new_UmlsRelationship ?l1) = Some ''has_finding_site''"
    "rel_AUI1 (new_UmlsRelationship ?l1) = Some ''A1''"
    "rel_AUI2 (new_UmlsRelationship ?l1) = Some ''A2''"
    by (simp_all add: new_UmlsRelationship_def column_def)
  have f2: "rel_SAB (new_UmlsRelationship ?l2) = Some ''SNOMEDCT_US''"
    "rel_SUPPRESS (new_UmlsRelationship ?l2) = Some ''N''"
    "rel_REL (new_UmlsRelationship ?l2) = Some ''PAR''"
    "rel_RELA (new_UmlsRelationship ?l2) = Some []"
    "rel_AUI1 (new_UmlsRelationship ?l2) = Some ''A1''"
    "rel_AUI2 (new_UmlsRelationship ?l2) = Some ''A2''"
    by (simp_all add: new_UmlsRelationship_def column_def)
  have f3: "rel_SAB (new_UmlsRelationship ?l3) = Some ''SNOMEDCT_US''"
    "rel_SUPPRESS (new_UmlsRelationship ?l3) = Some ''N''"
    "rel_REL (new_UmlsRelationship ?l3) = Some ''CHD''"
    "rel_RELA (new_UmlsRelationship ?l3) = Some []"
    "rel_AUI1 (new_UmlsRelationship ?l3) = Some ''A1''"
    "rel_AUI2 (new_UmlsRelationship ?l3) = Some ''A2''"
    by (simp_all add: new_UmlsRelationship_def column_def)
  have f4: "rel_SAB (new_UmlsRelationship ?l4) = Some ''SNOMEDCT_US''"
    "rel_SUPPRESS (new_UmlsRelationship ?l4) = Some ''N''"
    "rel_REL (new_UmlsRelationship ?l4) = Some ''RB''"
    "rel_RELA (new_UmlsRelationship ?l4) = Some []"
    "rel_AUI1 (new_UmlsRelationship ?l4) = Some ''A1''"
    "rel_AUI2 (new_UmlsRelationship ?l4) = Some ''A2''"
    by (simp_all add: new_UmlsRelationship_def column_def)
  have src: "lookupSource ''SNOMEDCT_US'' = Own ?src"
    by (simp add: lookupSource_def umlsSources_def)
  have c: "atomCode ?mc (Some ''A1'') = Some ''100''" "atomCode ?mc (Some ''A2'') = Some ''200''"
    "atomCode ?mc1 (Some ''A1'') = Some ''100''" "atomCode ?mc1 (Some ''A2'') = None"
    by (simp_all add: atomCode_def jsString_def new_UmlsConcept_def column_def)
  have e0: "p_emitted p_initial y = []" for y
    by (simp add: p_initial_def p_emitted_def items_def batchesFor_def openBatch_def
        sentByKey_def)
  have res: "exampleResource ?src = Some ([?component, ?child] @ ?parent # [])"
    "exampleResource ?src = Some ([?component] @ ?child # [?parent])"
    by (simp_all add: exampleResource_def)
  have u: "\<forall>q \<in> set [?component, ?child]. property_uri q \<noteq> Some PARENT_PROPERTY"
    "\<forall>q \<in> set [?component]. property_uri q \<noteq> Some CHILD_PROPERTY"
    by (simp_all add: PARENT_PROPERTY_def CHILD_PROPERTY_def)
  have 1: "\<exists>s'. relationshipStep ?rp ?mc exampleResource p_initial ?l1 = Inr s' \<and>
         p_emitted s' ''http://snomed.info/sct'' =
           [\<lparr>prop_code = Some ''100'', prop_property = Some ''363698007'',
             prop_value = Some ''200''\<rparr>]"
    using property_code_resolution_order
      [of "new_UmlsRelationship ?l1" ?l1 ?src "''SNOMEDCT_US/RO/has_finding_site''" _ ?rp ?mc
          exampleResource p_initial, OF refl _ _ _ refl refl,
       THEN conjunct1, rule_format, of "''363698007''"]
    by (auto simp add: f1 src c jsString_def e0 truthy_def)
  have 2: "\<exists>s'. relationshipStep Map.empty ?mc exampleResource p_initial ?l2 = Inr s' \<and>
         p_emitted s' ''http://snomed.info/sct'' =
           [\<lparr>prop_code = Some ''100'', prop_property = Some ''parent'',
             prop_value = Some ''200''\<rparr>]"
    using property_code_resolution_order
      [of "new_UmlsRelationship ?l2" ?l2 ?src "''SNOMEDCT_US/PAR/''" _ Map.empty ?mc
          exampleResource p_initial, OF refl _ _ _ refl refl,
       THEN conjunct2, THEN conjunct1, rule_format, THEN conjunct1, rule_format,
       of "[?component, ?child]" ?parent "[]", THEN conjunct1, rule_format, of "''parent''"]
      res(1) u(1)
    by (auto simp add: f2 src c jsString_def e0 truthy_def)
  have 3: "\<exists>s'. relationshipStep Map.empty ?mc exampleResource p_initial ?l3 = Inr s' \<and>
         p_emitted s' ''http://snomed.info/sct'' =
           [\<lparr>prop_code = Some ''100'', prop_property = Some ''child'',
             prop_value = Some ''200''\<rparr>]"
    using property_code_resolution_order
      [of "new_UmlsRelationship ?l3" ?l3 ?src "''SNOMEDCT_US/CHD/''" _ Map.empty ?mc
          exampleResource p_initial, OF refl _ _ _ refl refl,
       THEN conjunct2, THEN conjunct2, THEN conjunct1, rule_format, THEN conjunct1, rule_format,
       of "[?component]" ?child "[?parent]", THEN conjunct1, rule_format, of "''child''"]
      res(2) u(2)
    by (auto simp add: f3 src c jsString_def e0 truthy_def)
  have 4: "relationshipStep Map.empty ?mc1 exampleResource p_initial ?l3 =
         Inr (p_initial\<lparr>warnings := [(''child'', ''CHD/'', Some ''A2'')], p_skipped := 1\<rparr>)"
    using property_code_resolution_order
      [of "new_UmlsRelationship ?l3" ?l3 ?src "''SNOMEDCT_US/CHD/''" _ Map.empty ?mc1
          exampleResource p_initial, OF refl _ _ _ refl refl,
       THEN conjunct2, THEN conjunct2, THEN conjunct1, rule_format, THEN conjunct1, rule_format,
       of "[?component]" ?child "[?parent]", THEN conjunct1, rule_format, of "''child''"]
      res(2) u(2)
    by (simp add: f3 src c jsString_def truthy_def p_initial_def)
  have 5: "relationshipStep Map.empty ?mc exampleResource p_initial ?l4 = Inr p_initial"
    using property_code_resolution_order
      [of "new_UmlsRelationship ?l4" ?l4 ?src "''SNOMEDCT_US/RB/''" _ Map.empty ?mc
          exampleResource p_initial, OF refl _ _ _ refl refl,
       THEN conjunct2, THEN conjunct2, THEN conjunct2]
    by (simp add: f4 src c jsString_def)
  show ?thesis using 1 2 3 4 5 by blast
qed

text \<open>
  C8 as stated fails when the Stage-A map holds an empty name under the key of the record: the
  exact lookup succeeds, and yet a PAR record takes the parent-property code of its source, and
  a record of another relationship is rejected.
\<close>

theorem empty_stage_a_name_not_used:
  "[''SNOMEDCT_US/PAR/'' \<mapsto> [], ''SNOMEDCT_US/RO/x'' \<mapsto> []] ''SNOMEDCT_US/PAR/'' = Some []
   \<and> relationshipStep [''SNOMEDCT_US/PAR/'' \<mapsto> [], ''SNOMEDCT_US/RO/x'' \<mapsto> []]
         [''A1'' \<mapsto> new_UmlsConcept ''C1|ENG|P|L1|PF|S1|Y|A1||||SNOMEDCT_US|PT|100|x|0|N'',
          ''A2'' \<mapsto> new_UmlsConcept ''C2|ENG|P|L2|PF|S2|Y|A2||||SNOMEDCT_US|PT|200|y|0|N'']
         exampleResource p_initial
         ''C1|A1|AUI|PAR|C2|A2|AUI||R1||SNOMEDCT_US|SNOMEDCT_US|||N''
       = Inr \<lparr>p_processed = 1, p_skipped = 0,
              p_counts = [(''http://snomed.info/sct|parent (PAR/)'', 1)],
              properties = [(''http://snomed.info/sct'',
                             [\<lparr>prop_code = Some ''100'', prop_property = Some ''parent'',
                               prop_value = Some ''200''\<rparr>])],
              p_sent = [], warnings = []\<rparr>
   \<and> [''SNOMEDCT_US/PAR/'' \<mapsto> [], ''SNOMEDCT_US/RO/x'' \<mapsto> []] ''SNOMEDCT_US/RO/x'' = Some []
   \<and> relationshipStep [''SNOMEDCT_US/PAR/'' \<mapsto> [], ''SNOMEDCT_US/RO/x'' \<mapsto> []]
         [''A1'' \<mapsto> new_UmlsConcept ''C1|ENG|P|L1|PF|S1|Y|A1||||SNOMEDCT_US|PT|100|x|0|N'',
          ''A2'' \<mapsto> new_UmlsConcept ''C2|ENG|P|L2|PF|S2|Y|A2||||SNOMEDCT_US|PT|200|y|0|N'']
         exampleResource p_initial
         ''C1|A1|AUI|RO|C2|A2|AUI|x|R1||SNOMEDCT_US|SNOMEDCT_US|||N''
       = Inr p_initial"
  by (simp add: relationship_run_defs new_UmlsConcept_def)

text \<open>
  C5, as the code has it: for a filtered-in relationship record with a property name, when
  both atom identifiers are in the atom index and both atoms have a non-empty CODE, exactly one
  assertion is appended for the system of the source, with the CODE of the first atom as its
  code and the CODE of the second as its value, and neither the skip counter nor the warnings
  change. When an identifier is absent from the index, or its atom has an empty CODE, nothing is
  appended, one warning names the first atom identifier if the first code is missing and the
  second one otherwise, the skip counter grows by one, and the iteration returns normally.
\<close>

theorem endpoint_resolution:
  assumes "rel = new_UmlsRelationship line"
    and "lookupSource (jsString (rel_SAB rel)) = Own src"
    and "rel_SUPPRESS rel = Some ''N''"
    and "propertyNameOf rp res (Own src) rel = Inr (Some p)" and "p \<noteq> []"
  shows "(\<forall>a b. mc (jsString (rel_AUI1 rel)) = Some a \<and> mc (jsString (rel_AUI2 rel)) = Some b \<and>
            truthy (CODE a) \<and> truthy (CODE b) \<longrightarrow>
            (\<exists>s'. relationshipStep rp mc res s line = Inr s' \<and>
               p_emitted s' (system src) = p_emitted s (system src) @
                 [\<lparr>prop_code = CODE a, prop_property = Some p, prop_value = CODE b\<rparr>] \<and>
               (\<forall>y. y \<noteq> system src \<longrightarrow> p_emitted s' y = p_emitted s y) \<and>
               p_skipped s' = p_skipped s \<and> warnings s' = warnings s))
     \<and> (mc (jsString (rel_AUI1 rel)) = None \<or> mc (jsString (rel_AUI2 rel)) = None \<or>
          \<not> truthy (atomCode mc (rel_AUI1 rel)) \<or> \<not> truthy (atomCode mc (rel_AUI2 rel)) \<longrightarrow>
            relationshipStep rp mc res s line =
              Inr (s\<lparr>warnings := warnings s @
                       [(p, jsString (rel_REL rel) @ ''/'' @ jsString (rel_RELA rel),
                         if truthy (atomCode mc (rel_AUI1 rel)) then rel_AUI2 rel else rel_AUI1 rel)],
                     p_skipped := p_skipped s + 1\<rparr>) \<and>
            p_emitted (s\<lparr>warnings := warnings s @
                       [(p, jsString (rel_REL rel) @ ''/'' @ jsString (rel_RELA rel),
                         if truthy (atomCode mc (rel_AUI1 rel)) then rel_AUI2 rel else rel_AUI1 rel)],
                     p_skipped := p_skipped s + 1\<rparr>) = p_emitted s)"
proof -
  have t: "truthy (Some p)" using assms(5) by (simp add: truthy_def)
  note m = relationshipStep_mapped [OF assms(1-4) t, of mc s]
  have 1: "\<exists>s'. relationshipStep rp mc res s line = Inr s' \<and>
               p_emitted s' (system src) = p_emitted s (system src) @
                 [\<lparr>prop_code = CODE a, prop_property = Some p, prop_value = CODE b\<rparr>] \<and>
               (\<forall>y. y \<noteq> system src \<longrightarrow> p_emitted s' y = p_emitted s y) \<and>
               p_skipped s' = p_skipped s \<and> warnings s' = warnings s"
    if "mc (jsString (rel_AUI1 rel)) = Some a" "mc (jsString (rel_AUI2 rel)) = Some b"
      "truthy (CODE a)" "truthy (CODE b)" for a b
  proof -
    have "atomCode mc (rel_AUI1 rel) = CODE a" "atomCode mc (rel_AUI2 rel) = CODE b"
      using that(1,2) by (simp_all add: atomCode_def)
    then show ?thesis using m that(3,4) by auto
  qed
  have none: "\<not> truthy (atomCode mc (rel_AUI1 rel)) \<or> \<not> truthy (atomCode mc (rel_AUI2 rel))"
    if "mc (jsString (rel_AUI1 rel)) = None \<or> mc (jsString (rel_AUI2 rel)) = None \<or>
          \<not> truthy (atomCode mc (rel_AUI1 rel)) \<or> \<not> truthy (atomCode mc (rel_AUI2 rel))"
    using that by (auto simp: atomCode_def truthy_def)
  have 2: "relationshipStep rp mc res s line =
              Inr (s\<lparr>warnings := warnings s @
                       [(p, jsString (rel_REL rel) @ ''/'' @ jsString (rel_RELA rel),
                         if truthy (atomCode mc (rel_AUI1 rel)) then rel_AUI2 rel else rel_AUI1 rel)],
                     p_skipped := p_skipped s + 1\<rparr>)"
    if "mc (jsString (rel_AUI1 rel)) = None \<or> mc (jsString (rel_AUI2 rel)) = None \<or>
          \<not> truthy (atomCode mc (rel_AUI1 rel)) \<or> \<not> truthy (atomCode mc (rel_AUI2 rel))"
    using m none [OF that] by (auto simp: jsString_def)
  show ?thesis using 1 2 by (simp add: p_emitted_def)
qed


theorem endpoint_resolution_witness:
  "(\<exists>s'. relationshipStep Map.empty
            [''A1'' \<mapsto> new_UmlsConcept ''C1|ENG|P|L1|PF|S1|Y|A1||||SNOMEDCT_US|PT|100|x|0|N'',
             ''A2'' \<mapsto> new_UmlsConcept ''C2|ENG|P|L2|PF|S2|Y|A2||||SNOMEDCT_US|PT|200|y|0|N'']
            exampleResource p_initial
            ''C1|A1|AUI|PAR|C2|A2|AUI||R1||SNOMEDCT_US|SNOMEDCT_US|||N'' = Inr s' \<and>
         p_emitted s' ''http://snomed.info/sct'' =
           [\<lparr>prop_code = Some ''100'', prop_property = Some ''parent'', prop_value = Some ''200''\<rparr>])
   \<and> relationshipStep Map.empty
         [''A1'' \<mapsto> new_UmlsConcept ''C1|ENG|P|L1|PF|S1|Y|A1||||SNOMEDCT_US|PT|100|x|0|N'']
         exampleResource p_initial
         ''C1|A1|AUI|PAR|C2|A2|AUI||R1||SNOMEDCT_US|SNOMEDCT_US|||N''
       = Inr (p_initial\<lparr>warnings := [(''parent'', ''PAR/'', Some ''A2'')], p_skipped := 1\<rparr>)"
proof -
  let ?rl = "''C1|A1|AUI|PAR|C2|A2|AUI||R1||SNOMEDCT_US|SNOMEDCT_US|||N''"
  let ?rel = "new_UmlsRelationship ?rl"
  let ?a = "new_UmlsConcept ''C1|ENG|P|L1|PF|S1|Y|A1||||SNOMEDCT_US|PT|100|x|0|N''"
  let ?b = "new_UmlsConcept ''C2|ENG|P|L2|PF|S2|Y|A2||||SNOMEDCT_US|PT|200|y|0|N''"
  let ?src = "\<lparr>system = ''http://snomed.info/sct'', tty = [''FN'', ''PT'', ''SY'']\<rparr>"
  let ?mc = "[''A1'' \<mapsto> ?a, ''A2'' \<mapsto> ?b]"
  let ?mc1 = "[''A1'' \<mapsto> ?a]"
  have f: "rel_SAB ?rel = Some ''SNOMEDCT_US''" "rel_SUPPRESS ?rel = Some ''N''"
    "rel_AUI1 ?rel = Some ''A1''" "rel_AUI2 ?rel = Some ''A2''" "rel_REL ?rel = Some ''PAR''"
    "rel_RELA ?rel = Some []"
    by (simp_all add: new_UmlsRelationship_def column_def)
  have c: "CODE ?a = Some ''100''" "CODE ?b = Some ''200''"
    by (simp_all add: new_UmlsConcept_def column_def)
  have h1: "lookupSource (jsString (rel_SAB ?rel)) = Own ?src"
    by (simp add: f jsString_def lookupSource_def umlsSources_def)
  have h2: "propertyNameOf Map.empty exampleResource (Own ?src) ?rel = Inr (Some ''parent'')"
    by (simp add: f propertyNameOf_def findPropertyCode_def truthy_def exampleResource_def
        PARENT_PROPERTY_def CHILD_PROPERTY_def Let_def)
  have h3: "''parent'' \<noteq> []" by simp
  have e0: "p_emitted p_initial y = []" for y
    by (simp add: p_initial_def p_emitted_def items_def batchesFor_def openBatch_def
        sentByKey_def)
  note w = endpoint_resolution [OF refl h1 f(2) h2 h3]
  have "\<exists>s'. relationshipStep Map.empty ?mc exampleResource p_initial ?rl = Inr s' \<and>
         p_emitted s' (system ?src) = p_emitted p_initial (system ?src) @
           [\<lparr>prop_code = CODE ?a, prop_property = Some ''parent'', prop_value = CODE ?b\<rparr>]"
    using w [of ?mc p_initial, THEN conjunct1, rule_format, of ?a ?b]
    by (auto simp add: f c jsString_def truthy_def)
  then have 1: "\<exists>s'. relationshipStep Map.empty ?mc exampleResource p_initial ?rl = Inr s' \<and>
         p_emitted s' ''http://snomed.info/sct'' =
           [\<lparr>prop_code = Some ''100'', prop_property = Some ''parent'', prop_value = Some ''200''\<rparr>]"
    by (simp add: e0 c)
  have "relationshipStep Map.empty ?mc1 exampleResource p_initial ?rl =
          Inr (p_initial\<lparr>warnings := warnings p_initial @
                 [(''parent'', jsString (rel_REL ?rel) @ ''/'' @ jsString (rel_RELA ?rel),
                   if truthy (atomCode ?mc1 (rel_AUI1 ?rel)) then rel_AUI2 ?rel else rel_AUI1 ?rel)],
               p_skipped := p_skipped p_initial + 1\<rparr>)"
    using w [of ?mc1 p_initial, THEN conjunct2]
    by (simp add: f jsString_def)
  then have 2: "relationshipStep Map.empty ?mc1 exampleResource p_initial ?rl
       = Inr (p_initial\<lparr>warnings := [(''parent'', ''PAR/'', Some ''A2'')], p_skipped := 1\<rparr>)"
    by (simp add: f c jsString_def atomCode_def truthy_def p_initial_def)
  show ?thesis using 1 2 by blast
qed


text \<open>
  C5 as stated fails: the concept pass indexes a record whose CODE column is empty; a
  relationship between that atom and itself finds both identifiers in the index, and yet no
  assertion is appended: the record is skipped with a warning.
\<close>

theorem empty_code_atom_not_resolved:
  "map_option AUI (finalWinner [''C1|ENG|P|L1|PF|S1|Y|A1||||SNOMEDCT_US|PT||x|0|N''] ''A1'')
     = Some (Some ''A1'')
   \<and> map_option CODE (finalWinner [''C1|ENG|P|L1|PF|S1|Y|A1||||SNOMEDCT_US|PT||x|0|N''] ''A1'')
     = Some (Some [])
   \<and> relationshipStep Map.empty
         (finalWinner [''C1|ENG|P|L1|PF|S1|Y|A1||||SNOMEDCT_US|PT||x|0|N''])
         exampleResource p_initial
         ''C1|A1|AUI|PAR|C1|A1|AUI||R1||SNOMEDCT_US|SNOMEDCT_US|||N''
       = Inr (p_initial\<lparr>warnings := [(''parent'', ''PAR/'', Some ''A1'')], p_skipped := 1\<rparr>)"
  by (simp add: finalWinner_def run_defs relationship_run_defs)

text \<open>
  The relationship pass reads the resource of an inherited member of the registry when REL is
  PAR or CHD: it raises as the concept pass does.
\<close>

lemma relationship_inherited_source_raises:
  "relationshipStep rp mc res s ''C1|A1|AUI|PAR|C2|A2|AUI||R1||constructor|x|||N'' = Inl TypeError"
  if "rp ''constructor/PAR/'' = None"
  using that
  by (simp add: relationshipStep_def new_UmlsRelationship_def column_def jsString_def
      lookupSource_def umlsSources_def objectPrototypeKeys_def propertyNameOf_def truthy_def)

text \<open>
  An inherited member of the registry has no system. A relationship record that names one and
  has a Stage-A name is kept under the key \<^verbatim>\<open>undefined\<close>; the batch that reaches 500 entries
  inside the loop is sent with the undefined system itself, and the batch left at the end with
  its key.
\<close>

lemma inherited_source_system:
  "relationshipStep [''constructor/RO/x'' \<mapsto> ''p'']
       [''A1'' \<mapsto> new_UmlsConcept ''C1|ENG|P|L1|PF|S1|Y|A1||||SNOMEDCT_US|PT|100|x|0|N'',
        ''A2'' \<mapsto> new_UmlsConcept ''C2|ENG|P|L2|PF|S2|Y|A2||||SNOMEDCT_US|PT|200|y|0|N'']
       res p_initial ''C1|A1|AUI|RO|C2|A2|AUI|x|R1||constructor|x|||N''
     = Inr \<lparr>p_processed = 1, p_skipped = 0, p_counts = [(''undefined|p (RO/x)'', 1)],
            properties = [(''undefined'',
                           [\<lparr>prop_code = Some ''100'', prop_property = Some ''p'',
                             prop_value = Some ''200''\<rparr>])],
            p_sent = [], warnings = []\<rparr>"
  "length b = 499 \<Longrightarrow>
   pushProperty None p (p_initial\<lparr>properties := [(''undefined'', b)]\<rparr>) =
     Inr (p_initial\<lparr>p_sent := [(None, b @ [p])], properties := [(''undefined'', [])]\<rparr>)"
  "p_sent (flushProperties (p_initial\<lparr>properties := [(''undefined'', [p])]\<rparr>)) =
     [(Some ''undefined'', [p])]"
  by (simp_all add: relationshipStep_def new_UmlsRelationship_def column_def
      jsString_def lookupSource_def umlsSources_def objectPrototypeKeys_def p_initial_def
      pushProperty_def increment_def systemOf_def propertyNameOf_def truthy_def
      atomCode_def Let_def new_UmlsConcept_def flushProperties_def)

section \<open>Order of first occurrence and tallies\<close>

lemma set_firstSeen [simp]: "set (firstSeen xs) = set xs"
  by (induction xs) auto

lemma distinct_firstSeen [simp]: "distinct (firstSeen xs)"
  by (induction xs) (auto simp: distinct_removeAll)

lemma firstSeen_snoc:
  "firstSeen (xs @ [x]) = (if x \<in> set xs then firstSeen xs else firstSeen xs @ [x])"
  by (induction xs) auto

lemma update_tabulate:
  "distinct xs \<Longrightarrow>
   AList.update k v (map (\<lambda>x. (x, f x)) xs) =
     (if k \<in> set xs then map (\<lambda>x. (x, (f(k := v)) x)) xs else map (\<lambda>x. (x, f x)) xs @ [(k, v)])"
  by (induction xs) auto

lemma map_of_tabulate:
  "map_of (map (\<lambda>x. (x, f x)) xs) k = (if k \<in> set xs then Some (f k) else None)"
  by (induction xs) auto

lemma tally_snoc: "tally (ks @ [k]) = increment k (tally ks)"
proof (cases "k \<in> set ks")
  case True
  have "map (\<lambda>x. (x, count_list (ks @ [k]) x)) (firstSeen ks) =
        map (\<lambda>x. (x, ((count_list ks)(k := count_list ks k + 1)) x)) (firstSeen ks)"
    by (rule map_cong) auto
  then show ?thesis
    using True
    by (simp add: tally_def increment_def firstSeen_snoc update_tabulate map_of_tabulate)
next
  case False
  have "map (\<lambda>x. (x, count_list (ks @ [k]) x)) (firstSeen ks) =
        map (\<lambda>x. (x, count_list ks x)) (firstSeen ks)"
    using False by (intro map_cong) auto
  then show ?thesis
    using False
    by (simp add: tally_def increment_def firstSeen_snoc update_tabulate map_of_tabulate)
qed

lemma foldl_increment: "foldl (\<lambda>cs k. increment k cs) [] ks = tally ks"
proof (induction ks rule: rev_induct)
  case Nil
  then show ?case by (simp add: tally_def)
next
  case (snoc k ks)
  then show ?case by (simp add: tally_snoc)
qed

lemma mset_tally:
  "mset (tally ks) = image_mset (\<lambda>k. (k, count (mset ks) k)) (mset_set (set ks))"
proof -
  have "mset (firstSeen ks) = mset_set (set ks)"
    using mset_set_set [of "firstSeen ks"] by simp
  then show ?thesis
    unfolding tally_def mset_map by (simp add: count_mset)
qed

lemma tally_perm: "mset ks' = mset ks \<Longrightarrow> mset (tally ks') = mset (tally ks)"
  unfolding mset_tally using mset_eq_setD [of ks' ks] by simp

section \<open>The sort of the attribute and relationship summaries\<close>

lemma mset_sortCounts [simp]: "mset (sortCounts ck cs) = mset cs"
  by (simp add: sortCounts_def)

lemma sortCounts_sorted:
  "sorted_wrt (\<lambda>(k1, n1) (k2, n2). ck (systemPart k2) < ck (systemPart k1) \<or>
                 (ck (systemPart k2) = ck (systemPart k1) \<and> n2 \<le> n1))
     (sortCounts ck cs)"
proof -
  let ?f = "\<lambda>(key, n::nat). (ck (systemPart key), n)"
  have "sorted (map ?f (sort_key ?f (rev cs)))" by (rule sorted_sort_key)
  then have "sorted_wrt (\<lambda>x y. ?f x \<le> ?f y) (sort_key ?f (rev cs))"
    by (simp add: sorted_map)
  then have "sorted_wrt (\<lambda>x y. ?f y \<le> ?f x) (sortCounts ck cs)"
    unfolding sortCounts_def by (simp add: sorted_wrt_rev)
  then show ?thesis
    by (rule sorted_wrt_mono_rel [rotated]) (auto simp: less_eq_prod_def)
qed

lemma sortCounts_stable:
  "filter (\<lambda>(key, m). ck (systemPart key) = c \<and> m = n) (sortCounts ck cs) =
   filter (\<lambda>(key, m). ck (systemPart key) = c \<and> m = n) cs"
proof -
  let ?f = "\<lambda>(key, n::nat). (ck (systemPart key), n)"
  have e: "(\<lambda>(key, m). ck (systemPart key) = c \<and> m = n) = (\<lambda>y. ?f y = (c, n))"
    by (auto simp: fun_eq_iff)
  show ?thesis
    unfolding sortCounts_def e rev_filter [symmetric] sort_key_stable
    by (simp add: rev_filter)
qed

section \<open>The counts of the attribute and relationship passes\<close>

lemma pushProperty_counts:
  "pushProperty sys p s = Inr s1 \<Longrightarrow> p_counts s1 = p_counts s"
  using pushProperty_push [of sys p s] by auto

lemma pushProperty_total: "pushProperty sys p s \<noteq> Inl e"
  using pushProperty_push [of sys p s] by auto

lemma propertyStep_counts:
  assumes "propertyStep res s line = Inr s'"
  shows "p_counts s' = (case propertyKey res line of
                          None \<Rightarrow> p_counts s
                        | Some k \<Rightarrow> increment k (p_counts s))"
  using assms unfolding propertyStep_def propertyKey_def acceptedProperty_def Let_def
  by (auto split: lookup.splits option.splits if_splits sum.splits
      dest: pushProperty_counts)

lemma propertyLoop_counts:
  "propertyLoop res s lines = Inr s' \<Longrightarrow>
   p_counts s' = foldl (\<lambda>cs k. increment k cs) (p_counts s)
                   (List.map_filter (propertyKey res) lines)"
proof (induction lines arbitrary: s)
  case Nil
  then show ?case by (simp add: List.map_filter_simps)
next
  case (Cons line rest)
  from Cons.prems obtain s1 where s1: "propertyStep res s line = Inr s1"
    and r: "propertyLoop res s1 rest = Inr s'"
    by (auto split: sum.splits)
  show ?case
    using Cons.IH [OF r] propertyStep_counts [OF s1]
    by (simp add: List.map_filter_simps split: option.splits)
qed

lemma relationshipStep_counts:
  assumes "relationshipStep rp mc res s line = Inr s'"
  shows "p_counts s' = (case relationshipKey rp mc res line of
                          None \<Rightarrow> p_counts s
                        | Some k \<Rightarrow> increment k (p_counts s))"
  using assms unfolding relationshipStep_def relationshipKey_def Let_def
  by (auto split: option.splits if_splits sum.splits dest: pushProperty_counts)

lemma relationshipLoop_counts:
  "relationshipLoop rp mc res s lines = Inr s' \<Longrightarrow>
   p_counts s' = foldl (\<lambda>cs k. increment k cs) (p_counts s)
                   (List.map_filter (relationshipKey rp mc res) lines)"
proof (induction lines arbitrary: s)
  case Nil
  then show ?case by (simp add: List.map_filter_simps)
next
  case (Cons line rest)
  from Cons.prems obtain s1 where s1: "relationshipStep rp mc res s line = Inr s1"
    and r: "relationshipLoop rp mc res s1 rest = Inr s'"
    by (auto split: sum.splits)
  show ?case
    using Cons.IH [OF r] relationshipStep_counts [OF s1]
    by (simp add: List.map_filter_simps split: option.splits)
qed

lemma relationshipStep_any_state:
  assumes "relationshipStep rp mc res s line = Inr t"
  shows "\<exists>t'. relationshipStep rp mc res s' line = Inr t'"
  using assms pushProperty_total unfolding relationshipStep_def Let_def
  by (auto split: sum.splits if_splits)

lemma relationshipLoop_steps:
  "relationshipLoop rp mc res s lines = Inr t \<Longrightarrow>
   \<forall>line \<in> set lines. \<exists>u. relationshipStep rp mc res p_initial line = Inr u"
proof (induction lines arbitrary: s)
  case Nil
  then show ?case by simp
next
  case (Cons line rest)
  from Cons.prems obtain s1 where s1: "relationshipStep rp mc res s line = Inr s1"
    and r: "relationshipLoop rp mc res s1 rest = Inr t"
    by (auto split: sum.splits)
  show ?case using Cons.IH [OF r] relationshipStep_any_state [OF s1] by simp
qed

lemma relationshipLoop_completes:
  "\<forall>line \<in> set lines. \<exists>u. relationshipStep rp mc res p_initial line = Inr u \<Longrightarrow>
   \<exists>t. relationshipLoop rp mc res s lines = Inr t"
proof (induction lines arbitrary: s)
  case Nil
  then show ?case by simp
next
  case (Cons line rest)
  obtain u where "relationshipStep rp mc res p_initial line = Inr u" using Cons.prems by auto
  then obtain s1 where s1: "relationshipStep rp mc res s line = Inr s1"
    using relationshipStep_any_state by blast
  show ?case using Cons.IH [of s1] Cons.prems s1 by simp
qed

lemma map_filter_perm:
  "mset xs' = mset xs \<Longrightarrow> mset (List.map_filter f xs') = mset (List.map_filter f xs)"
  unfolding List.map_filter_def by simp

section \<open>The order of the counts of the concept pass\<close>

lemma index_none_iff:
  assumes pre: "conceptLoop initial pre = Inr s"
  shows "mappedConcepts s (winnerKey c) = None \<longleftrightarrow> candidates (winnerKey c) pre = []"
proof (cases "candidates (winnerKey c) pre = []")
  case True
  then show ?thesis
    using winner_loop [OF indexInv_initial pre winnerKey_pipe] by (simp add: initial_def)
next
  case False
  then show ?thesis using loop_final_winner [OF pre False] by auto
qed

lemma increment_keys:
  "map fst (increment k cs) = (if k \<in> set (map fst cs) then map fst cs else map fst cs @ [k])"
  by (simp add: increment_def AList.update_keys)

lemma countedSystems_snoc:
  "countedSystems (pre @ [line]) =
     (if filteredIn (new_UmlsConcept line) \<and>
         targetSystem (new_UmlsConcept line) \<notin> set (countedSystems pre)
      then countedSystems pre @ [targetSystem (new_UmlsConcept line)]
      else countedSystems pre)"
  by (simp add: countedSystems_def firstSeen_snoc)

lemma step_countedSystems:
  assumes pre: "conceptLoop initial pre = Inr s"
    and inv: "map fst (counts s) = countedSystems pre"
    and st: "conceptStep s line = Inr s'"
  shows "map fst (counts s') = countedSystems (pre @ [line])"
proof -
  let ?c = "new_UmlsConcept line"
  show ?thesis
  proof (cases "filteredIn ?c \<and> mappedConcepts s (winnerKey ?c) = None")
    case True
    have "map fst (increment (targetSystem ?c) (counts s)) =
            (if targetSystem ?c \<in> set (countedSystems pre) then countedSystems pre
             else countedSystems pre @ [targetSystem ?c])"
      unfolding increment_keys inv ..
    then show ?thesis
      using True unfolding step_counts [OF refl st] countedSystems_snoc by simp
  next
    case False
    have "targetSystem ?c \<in> set (countedSystems pre)" if f: "filteredIn ?c"
    proof -
      have "candidates (winnerKey ?c) pre \<noteq> []"
        using False f index_none_iff [OF pre] by simp
      then have "winnerKey ?c \<in> countedKeys (targetSystem ?c) pre"
        using key_counted_iff [OF refl f] by simp
      then obtain w where w: "w \<in> set (map new_UmlsConcept pre)" "filteredIn w"
          "targetSystem w = targetSystem ?c"
        unfolding countedKeys_def by auto
      have "targetSystem w \<in> targetSystem ` set (filter filteredIn (map new_UmlsConcept pre))"
        using w(1,2) by (intro imageI) simp
      then show ?thesis unfolding countedSystems_def set_firstSeen set_map w(3) .
    qed
    then show ?thesis
      using False inv by (auto simp: step_counts [OF refl st] countedSystems_snoc)
  qed
qed

lemma loop_countedSystems:
  assumes "conceptLoop initial pre = Inr s" and "map fst (counts s) = countedSystems pre"
    and "conceptLoop s rest = Inr s'"
  shows "map fst (counts s') = countedSystems (pre @ rest)"
  using assms
proof (induction rest arbitrary: pre s)
  case Nil
  then show ?case by simp
next
  case (Cons line rest)
  from Cons.prems(3) obtain s1 where s1: "conceptStep s line = Inr s1"
    and r: "conceptLoop s1 rest = Inr s'"
    by (auto split: sum.splits)
  have p1: "conceptLoop initial (pre @ [line]) = Inr s1"
    using Cons.prems(1) s1 by (simp add: conceptLoop_append)
  have i1: "map fst (counts s1) = countedSystems (pre @ [line])"
    using step_countedSystems [OF Cons.prems(1,2) s1] .
  show ?case using Cons.IH [OF p1 i1 r] by simp
qed

lemma tabulate_keys:
  "\<forall>k \<in> set (map fst al). map_of al k = Some (f k) \<Longrightarrow> distinct (map fst al) \<Longrightarrow>
   al = map (\<lambda>k. (k, f k)) (map fst al)"
proof (induction al)
  case Nil
  then show ?case by simp
next
  case (Cons a al)
  have "map_of al k = Some (f k)" if "k \<in> set (map fst al)" for k
  proof -
    have "k \<noteq> fst a" using that Cons.prems(2) by force
    then show ?thesis using Cons.prems(1) that by (cases a) auto
  qed
  then have "al = map (\<lambda>k. (k, f k)) (map fst al)" using Cons.IH Cons.prems(2) by simp
  moreover have "snd a = f (fst a)" using Cons.prems(1) by (cases a) simp
  ultimately show ?case by (cases a) simp
qed

lemma pass_counts:
  assumes "conceptLoop initial lines = Inr s"
  shows "counts s = map (\<lambda>sys. (sys, card (countedKeys sys lines))) (countedSystems lines)"
proof -
  have i: "countsInv s lines" using pass_countsInv [OF assms] .
  have "map fst (counts initial) = countedSystems []"
    by (simp add: initial_def countedSystems_def)
  then have k: "map fst (counts s) = countedSystems lines"
    using loop_countedSystems [of "[]" initial lines s] assms by simp
  have "map_of (counts s) sys = Some (card (countedKeys sys lines))"
    if "sys \<in> set (map fst (counts s))" for sys
  proof -
    have "map_of (counts s) sys \<noteq> None" using that by (simp add: map_of_eq_None_iff)
    then show ?thesis using i unfolding countsInv_def by (auto split: if_splits)
  qed
  then have "counts s = map (\<lambda>sys. (sys, card (countedKeys sys lines))) (map fst (counts s))"
    using i unfolding countsInv_def by (intro tabulate_keys) auto
  then show ?thesis unfolding k .
qed

section \<open>The summaries\<close>

lemma concept_summary:
  assumes "conceptLoop initial lines = Inr s"
  shows "mset (perSystem (summaryOf s)) =
           mset (map (\<lambda>sys. (sys, card (countedKeys sys lines))) (countedSystems lines))"
    and "sorted_wrt (\<lambda>(s1, n1) (s2, n2). n2 \<le> n1) (perSystem (summaryOf s))"
    and "filter (\<lambda>(sys, m). m = n) (perSystem (summaryOf s)) =
           map (\<lambda>sys. (sys, n))
             (filter (\<lambda>sys. card (countedKeys sys lines) = n) (countedSystems lines))"
proof -
  let ?f = "\<lambda>(sys :: string, n :: nat). - int n"
  let ?g = "\<lambda>sys. (sys, card (countedKeys sys lines))"
  note c = pass_counts [OF assms]
  show "mset (perSystem (summaryOf s)) = mset (map ?g (countedSystems lines))"
    by (simp add: summaryOf_def c)
  have "sorted (map ?f (sort_key ?f (counts s)))" by (rule sorted_sort_key)
  then have "sorted_wrt (\<lambda>x y. ?f x \<le> ?f y) (perSystem (summaryOf s))"
    by (simp add: sorted_map summaryOf_def)
  then show "sorted_wrt (\<lambda>(s1, n1) (s2, n2). n2 \<le> n1) (perSystem (summaryOf s))"
    by (rule sorted_wrt_mono_rel [rotated]) auto
  have e: "(\<lambda>(sys, m). m = n) = (\<lambda>y. ?f y = - int n)"
    by (auto simp: fun_eq_iff)
  have "filter (\<lambda>(sys, m). m = n) (perSystem (summaryOf s)) =
        filter (\<lambda>(sys, m). m = n) (map ?g (countedSystems lines))"
    unfolding summaryOf_def e by (simp add: sort_key_stable c)
  also have "\<dots> = map ?g (filter (\<lambda>sys. card (countedKeys sys lines) = n)
                              (countedSystems lines))"
    by (simp add: filter_map comp_def)
  also have "\<dots> = map (\<lambda>sys. (sys, n))
                      (filter (\<lambda>sys. card (countedKeys sys lines) = n) (countedSystems lines))"
    by (rule map_cong) auto
  finally show "filter (\<lambda>(sys, m). m = n) (perSystem (summaryOf s)) =
           map (\<lambda>sys. (sys, n))
             (filter (\<lambda>sys. card (countedKeys sys lines) = n) (countedSystems lines))" .
qed

lemma concept_summary_perm:
  assumes "conceptLoop initial lines = Inr s" and p: "mset lines' = mset lines"
  shows "\<exists>r'. processConcepts lines' = Inr r' \<and>
               mset (perSystem (report r')) = mset (perSystem (summaryOf s)) \<and>
               totalSkipped (report r') = totalSkipped (summaryOf s)"
proof -
  have "set lines' = set lines" using p by (rule mset_eq_setD)
  then have "\<forall>line \<in> set lines'. \<not> raisesOn line"
    using conceptLoop_completes [of initial lines] assms(1) by auto
  then obtain s' where s': "conceptLoop initial lines' = Inr s'"
    using conceptLoop_completes [of initial lines'] by auto
  have c: "mset (counts s') = mset (counts s)" using counts_perm [OF assms(1) s' p] .
  have "length (filter skipCounted lines') = length (filter skipCounted lines)"
    using p by (metis mset_filter size_mset)
  then have k: "skipped s' = skipped s"
    using loop_skipped [OF s'] loop_skipped [OF assms(1)] by simp
  show ?thesis
    unfolding processConcepts_def using s' c k by (simp add: summaryOf_def)
qed

lemma property_summary:
  assumes "p_counts s = tally keys"
  shows "mset (perProperty (summaryOfProperties ck s)) = mset (tally keys)"
    and "sorted_wrt (\<lambda>(k1, n1) (k2, n2). ck (systemPart k2) < ck (systemPart k1) \<or>
                       (ck (systemPart k2) = ck (systemPart k1) \<and> n2 \<le> n1))
           (perProperty (summaryOfProperties ck s))"
    and "filter (\<lambda>(key, m). ck (systemPart key) = c \<and> m = n)
           (perProperty (summaryOfProperties ck s)) =
         filter (\<lambda>(key, m). ck (systemPart key) = c \<and> m = n) (tally keys)"
  unfolding summaryOfProperties_def
  using assms sortCounts_sorted [of ck "p_counts s"] sortCounts_stable [of ck c n "p_counts s"]
  by simp_all

lemma propertyLoop_tally:
  assumes "propertyLoop res p_initial lines = Inr s"
  shows "p_counts s = tally (List.map_filter (propertyKey res) lines)"
  using propertyLoop_counts [OF assms] by (simp add: p_initial_def foldl_increment)

lemma relationshipLoop_tally:
  assumes "relationshipLoop rp mc res p_initial lines = Inr s"
  shows "p_counts s = tally (List.map_filter (relationshipKey rp mc res) lines)"
  using relationshipLoop_counts [OF assms] by (simp add: p_initial_def foldl_increment)

lemma property_summary_perm:
  assumes "propertyLoop res p_initial lines = Inr s" and p: "mset lines' = mset lines"
  shows "\<exists>r'. processProperties ck res lines' = Inr r' \<and>
               mset (perProperty (p_report r')) = mset (perProperty (summaryOfProperties ck s))"
proof -
  obtain s' where s': "propertyLoop res p_initial lines' = Inr s'"
    using propertyLoop_emitted [of res p_initial lines'] by blast
  have "mset (p_counts s') = mset (p_counts s)"
    unfolding propertyLoop_tally [OF s'] propertyLoop_tally [OF assms(1)]
    by (intro tally_perm map_filter_perm p)
  then show ?thesis
    unfolding processProperties_def using s' by (simp add: summaryOfProperties_def)
qed

lemma relationship_summary_perm:
  assumes "relationshipLoop rp mc res p_initial lines = Inr s" and p: "mset lines' = mset lines"
  shows "\<exists>r'. processRelationships ck rp mc res lines' = Inr r' \<and>
               mset (perProperty (p_report r')) = mset (perProperty (summaryOfProperties ck s))"
proof -
  have "set lines' = set lines" using p by (rule mset_eq_setD)
  then have "\<forall>line \<in> set lines'. \<exists>u. relationshipStep rp mc res p_initial line = Inr u"
    using relationshipLoop_steps [OF assms(1)] by simp
  then obtain s' where s': "relationshipLoop rp mc res p_initial lines' = Inr s'"
    using relationshipLoop_completes by blast
  have "mset (p_counts s') = mset (p_counts s)"
    unfolding relationshipLoop_tally [OF s'] relationshipLoop_tally [OF assms(1)]
    by (intro tally_perm map_filter_perm p)
  then show ?thesis
    unfolding processRelationships_def using s' by (simp add: summaryOfProperties_def)
qed

text \<open>
  C6, as the code has it. The per-system lines of the summary of the concept pass are the
  systems counted, each with the number of its winner keys; they are in descending order of
  count, and the lines of equal count are in the order in which their systems were first
  counted in the stream. The lines of the summaries of the attribute pass and of the
  relationship pass are the keys counted, each with the number of records counted under it;
  they are in descending collation order of the system, the lines of one system in descending
  order of count, and the lines of one system and one count in the order in which their keys
  were first counted in the stream. No summary has a tie-break on the system name. Every
  permutation of a stream completes as well and gives the same lines as a multiset (and, for the
  concept pass, the same skipped total); the order of the lines that tie may differ.
\<close>

theorem summary_order:
  assumes "processConcepts lines = Inr r"
    and "processProperties ck res plines = Inr pr"
    and "processRelationships ck rp mc res rlines = Inr rr"
    and "pkeys = List.map_filter (propertyKey res) plines"
    and "rkeys = List.map_filter (relationshipKey rp mc res) rlines"
  shows "mset (perSystem (report r)) =
           mset (map (\<lambda>sys. (sys, card (countedKeys sys lines))) (countedSystems lines))
     \<and> sorted_wrt (\<lambda>(s1, n1) (s2, n2). n2 \<le> n1) (perSystem (report r))
     \<and> (\<forall>n. filter (\<lambda>(sys, m). m = n) (perSystem (report r)) =
             map (\<lambda>sys. (sys, n))
               (filter (\<lambda>sys. card (countedKeys sys lines) = n) (countedSystems lines)))
     \<and> (\<forall>lines'. mset lines' = mset lines \<longrightarrow>
          (\<exists>r'. processConcepts lines' = Inr r' \<and>
                mset (perSystem (report r')) = mset (perSystem (report r)) \<and>
                totalSkipped (report r') = totalSkipped (report r)))
     \<and> mset (perProperty (p_report pr)) = mset (tally pkeys)
     \<and> sorted_wrt (\<lambda>(k1, n1) (k2, n2). ck (systemPart k2) < ck (systemPart k1) \<or>
                       (ck (systemPart k2) = ck (systemPart k1) \<and> n2 \<le> n1))
          (perProperty (p_report pr))
     \<and> (\<forall>c n. filter (\<lambda>(key, m). ck (systemPart key) = c \<and> m = n) (perProperty (p_report pr)) =
               filter (\<lambda>(key, m). ck (systemPart key) = c \<and> m = n) (tally pkeys))
     \<and> (\<forall>plines'. mset plines' = mset plines \<longrightarrow>
          (\<exists>pr'. processProperties ck res plines' = Inr pr' \<and>
                 mset (perProperty (p_report pr')) = mset (perProperty (p_report pr))))
     \<and> mset (perProperty (p_report rr)) = mset (tally rkeys)
     \<and> sorted_wrt (\<lambda>(k1, n1) (k2, n2). ck (systemPart k2) < ck (systemPart k1) \<or>
                       (ck (systemPart k2) = ck (systemPart k1) \<and> n2 \<le> n1))
          (perProperty (p_report rr))
     \<and> (\<forall>c n. filter (\<lambda>(key, m). ck (systemPart key) = c \<and> m = n) (perProperty (p_report rr)) =
               filter (\<lambda>(key, m). ck (systemPart key) = c \<and> m = n) (tally rkeys))
     \<and> (\<forall>rlines'. mset rlines' = mset rlines \<longrightarrow>
          (\<exists>rr'. processRelationships ck rp mc res rlines' = Inr rr' \<and>
                 mset (perProperty (p_report rr')) = mset (perProperty (p_report rr))))"
proof -
  obtain s where s: "conceptLoop initial lines = Inr s" and r: "report r = summaryOf s"
    using assms(1) unfolding processConcepts_def by (auto split: sum.splits)
  obtain ps where ps: "propertyLoop res p_initial plines = Inr ps"
    and pr: "p_report pr = summaryOfProperties ck ps"
    using assms(2) unfolding processProperties_def by (auto split: sum.splits)
  obtain rs where rs: "relationshipLoop rp mc res p_initial rlines = Inr rs"
    and rr: "p_report rr = summaryOfProperties ck rs"
    using assms(3) unfolding processRelationships_def by (auto split: sum.splits)
  have pk: "p_counts ps = tally pkeys" unfolding assms(4) by (rule propertyLoop_tally [OF ps])
  have rk: "p_counts rs = tally rkeys" unfolding assms(5) by (rule relationshipLoop_tally [OF rs])
  note c = concept_summary [OF s] and p = property_summary [OF pk, of ck]
    and q = property_summary [OF rk, of ck]
  have c3: "\<forall>n. filter (\<lambda>(sys, m). m = n) (perSystem (summaryOf s)) =
             map (\<lambda>sys. (sys, n))
               (filter (\<lambda>sys. card (countedKeys sys lines) = n) (countedSystems lines))"
    using c(3) by blast
  have c4: "\<forall>lines'. mset lines' = mset lines \<longrightarrow>
          (\<exists>r'. processConcepts lines' = Inr r' \<and>
                mset (perSystem (report r')) = mset (perSystem (summaryOf s)) \<and>
                totalSkipped (report r') = totalSkipped (summaryOf s))"
    using concept_summary_perm [OF s] by blast
  have p3: "\<forall>c n. filter (\<lambda>(key, m). ck (systemPart key) = c \<and> m = n)
                    (perProperty (summaryOfProperties ck ps)) =
               filter (\<lambda>(key, m). ck (systemPart key) = c \<and> m = n) (tally pkeys)"
    using p(3) by blast
  have p4: "\<forall>plines'. mset plines' = mset plines \<longrightarrow>
          (\<exists>pr'. processProperties ck res plines' = Inr pr' \<and>
                 mset (perProperty (p_report pr')) =
                 mset (perProperty (summaryOfProperties ck ps)))"
    using property_summary_perm [OF ps] by blast
  have q3: "\<forall>c n. filter (\<lambda>(key, m). ck (systemPart key) = c \<and> m = n)
                    (perProperty (summaryOfProperties ck rs)) =
               filter (\<lambda>(key, m). ck (systemPart key) = c \<and> m = n) (tally rkeys)"
    using q(3) by blast
  have q4: "\<forall>rlines'. mset rlines' = mset rlines \<longrightarrow>
          (\<exists>rr'. processRelationships ck rp mc res rlines' = Inr rr' \<and>
                 mset (perProperty (p_report rr')) =
                 mset (perProperty (summaryOfProperties ck rs)))"
    using relationship_summary_perm [OF rs] by blast
  show ?thesis
    unfolding r pr rr by (intro conjI c(1) c(2) c3 c4 p(1) p(2) p3 p4 q(1) q(2) q3 q4)
qed

lemmas summary_run_defs = processProperties_def processRelationships_def summaryOfProperties_def
  sortCounts_def systemPart_def

theorem summary_order_witness:
  "\<exists>r pr rr.
     processConcepts [''C1|ENG|P|L1|PF|S1|Y|A1||||SNOMEDCT_US|PT|100|x|0|N'',
                      ''C2|ENG|P|L2|PF|S2|Y|A2||||LNC|LN|200|y|0|N''] = Inr r
   \<and> processProperties (\<lambda>sys. sys) exampleResource
        [''C1|L1|S1|A1|AUI|1234-5|AT1||LOINC_COMPONENT|LNC|Glucose|N'',
         ''C1|L1|S1|A1|AUI|1234-5|AT2||parent|LNC|LP1|N'',
         ''C2|L2|S2|A2|AUI|100|AT3||COMPONENT|SNOMEDCT_US|x|N''] = Inr pr
   \<and> processRelationships (\<lambda>sys. sys) Map.empty
        [''A1'' \<mapsto> new_UmlsConcept ''C1|ENG|P|L1|PF|S1|Y|A1||||SNOMEDCT_US|PT|100|x|0|N'',
         ''A2'' \<mapsto> new_UmlsConcept ''C2|ENG|P|L2|PF|S2|Y|A2||||SNOMEDCT_US|PT|200|y|0|N'']
        exampleResource
        [''C1|A1|AUI|PAR|C2|A2|AUI||R1||SNOMEDCT_US|SNOMEDCT_US|||N'',
         ''C2|A2|AUI|CHD|C1|A1|AUI||R2||SNOMEDCT_US|SNOMEDCT_US|||N''] = Inr rr
   \<and> filter (\<lambda>(sys, m). m = 1) (perSystem (report r)) =
       map (\<lambda>sys. (sys, 1))
         (filter (\<lambda>sys. card (countedKeys sys
                    [''C1|ENG|P|L1|PF|S1|Y|A1||||SNOMEDCT_US|PT|100|x|0|N'',
                     ''C2|ENG|P|L2|PF|S2|Y|A2||||LNC|LN|200|y|0|N'']) = 1)
            (countedSystems [''C1|ENG|P|L1|PF|S1|Y|A1||||SNOMEDCT_US|PT|100|x|0|N'',
                             ''C2|ENG|P|L2|PF|S2|Y|A2||||LNC|LN|200|y|0|N'']))
   \<and> mset (perProperty (p_report pr)) =
       mset (tally [''http://loinc.org|COMPONENT'', ''http://loinc.org|parent'',
                    ''http://snomed.info/sct|COMPONENT''])
   \<and> sorted_wrt (\<lambda>(k1, n1) (k2, n2). systemPart k2 < systemPart k1 \<or>
                     (systemPart k2 = systemPart k1 \<and> n2 \<le> n1))
        (perProperty (p_report pr))
   \<and> filter (\<lambda>(key, m). systemPart key = ''http://loinc.org'' \<and> m = 1)
        (perProperty (p_report pr)) =
       [(''http://loinc.org|COMPONENT'', 1), (''http://loinc.org|parent'', 1)]
   \<and> mset (perProperty (p_report rr)) =
       mset (tally [''http://snomed.info/sct|parent (PAR/)'',
                    ''http://snomed.info/sct|child (CHD/)''])
   \<and> (\<exists>rr'. processRelationships (\<lambda>sys. sys) Map.empty
        [''A1'' \<mapsto> new_UmlsConcept ''C1|ENG|P|L1|PF|S1|Y|A1||||SNOMEDCT_US|PT|100|x|0|N'',
         ''A2'' \<mapsto> new_UmlsConcept ''C2|ENG|P|L2|PF|S2|Y|A2||||SNOMEDCT_US|PT|200|y|0|N'']
        exampleResource
        [''C2|A2|AUI|CHD|C1|A1|AUI||R2||SNOMEDCT_US|SNOMEDCT_US|||N'',
         ''C1|A1|AUI|PAR|C2|A2|AUI||R1||SNOMEDCT_US|SNOMEDCT_US|||N''] = Inr rr' \<and>
        mset (perProperty (p_report rr')) = mset (perProperty (p_report rr)))"
proof -
  let ?l1 = "''C1|ENG|P|L1|PF|S1|Y|A1||||SNOMEDCT_US|PT|100|x|0|N''"
  let ?l2 = "''C2|ENG|P|L2|PF|S2|Y|A2||||LNC|LN|200|y|0|N''"
  let ?a1 = "''C1|L1|S1|A1|AUI|1234-5|AT1||LOINC_COMPONENT|LNC|Glucose|N''"
  let ?a2 = "''C1|L1|S1|A1|AUI|1234-5|AT2||parent|LNC|LP1|N''"
  let ?a3 = "''C2|L2|S2|A2|AUI|100|AT3||COMPONENT|SNOMEDCT_US|x|N''"
  let ?r1 = "''C1|A1|AUI|PAR|C2|A2|AUI||R1||SNOMEDCT_US|SNOMEDCT_US|||N''"
  let ?r2 = "''C2|A2|AUI|CHD|C1|A1|AUI||R2||SNOMEDCT_US|SNOMEDCT_US|||N''"
  let ?mc = "[''A1'' \<mapsto> new_UmlsConcept ''C1|ENG|P|L1|PF|S1|Y|A1||||SNOMEDCT_US|PT|100|x|0|N'',
              ''A2'' \<mapsto> new_UmlsConcept ''C2|ENG|P|L2|PF|S2|Y|A2||||SNOMEDCT_US|PT|200|y|0|N'']"
  let ?ck = "\<lambda>sys :: string. sys"
  obtain r where r: "processConcepts [?l1, ?l2] = Inr r" by (simp add: run_defs)
  obtain pr where pr: "processProperties ?ck exampleResource [?a1, ?a2, ?a3] = Inr pr"
    by (simp add: processProperties_def property_run_defs)
  obtain rr where rr: "processRelationships ?ck Map.empty ?mc exampleResource [?r1, ?r2] = Inr rr"
    by (simp add: processRelationships_def relationship_run_defs new_UmlsConcept_def)
  have pk: "[''http://loinc.org|COMPONENT'', ''http://loinc.org|parent'',
             ''http://snomed.info/sct|COMPONENT''] =
            List.map_filter (propertyKey exampleResource) [?a1, ?a2, ?a3]"
    by (simp add: List.map_filter_simps propertyKey_def acceptedProperty_def property_run_defs
        CHILD_PROPERTY_def)
  have rk: "[''http://snomed.info/sct|parent (PAR/)'', ''http://snomed.info/sct|child (CHD/)''] =
            List.map_filter (relationshipKey Map.empty ?mc exampleResource) [?r1, ?r2]"
    by (simp add: List.map_filter_simps relationshipKey_def relationship_run_defs
        new_UmlsConcept_def)
  note t = summary_order [OF r pr rr pk rk]
  have 1: "filter (\<lambda>(sys, m). m = 1) (perSystem (report r)) =
       map (\<lambda>sys. (sys, 1))
         (filter (\<lambda>sys. card (countedKeys sys [?l1, ?l2]) = 1) (countedSystems [?l1, ?l2]))"
    using t by blast
  have 2: "mset (perProperty (p_report pr)) =
       mset (tally [''http://loinc.org|COMPONENT'', ''http://loinc.org|parent'',
                    ''http://snomed.info/sct|COMPONENT''])"
    using t by blast
  have 3: "sorted_wrt (\<lambda>(k1, n1) (k2, n2). systemPart k2 < systemPart k1 \<or>
                     (systemPart k2 = systemPart k1 \<and> n2 \<le> n1))
        (perProperty (p_report pr))"
    using t by blast
  have "filter (\<lambda>(key, m). systemPart key = ''http://loinc.org'' \<and> m = 1)
          (perProperty (p_report pr)) =
        filter (\<lambda>(key, m). systemPart key = ''http://loinc.org'' \<and> m = 1)
          (tally [''http://loinc.org|COMPONENT'', ''http://loinc.org|parent'',
                  ''http://snomed.info/sct|COMPONENT''])"
    using t by blast
  then have 4: "filter (\<lambda>(key, m). systemPart key = ''http://loinc.org'' \<and> m = 1)
        (perProperty (p_report pr)) =
       [(''http://loinc.org|COMPONENT'', 1), (''http://loinc.org|parent'', 1)]"
    by (simp add: tally_def systemPart_def)
  have 5: "mset (perProperty (p_report rr)) =
       mset (tally [''http://snomed.info/sct|parent (PAR/)'',
                    ''http://snomed.info/sct|child (CHD/)''])"
    using t by blast
  have "mset [?r2, ?r1] = mset [?r1, ?r2]" by simp
  then have 6: "\<exists>rr'. processRelationships ?ck Map.empty ?mc exampleResource [?r2, ?r1] = Inr rr' \<and>
        mset (perProperty (p_report rr')) = mset (perProperty (p_report rr))"
    using t by blast
  show ?thesis using r pr rr 1 2 3 4 5 6 by blast
qed

text \<open>
  C6 as stated fails. In the concept pass, one SNOMED CT record and one LOINC record are each
  counted once: the summary lists the systems in arrival order, so the two orders of the same
  two lines print different summaries, and the first of them is not in ascending order of
  system name. In the attribute pass, with strings collated by their code units, a SNOMED CT
  line of count 1 comes before a LOINC line of count 2: the lines are in descending order of
  system before they are in descending order of count. And whatever the collation, two
  properties of one system counted once each, and two relationships of one system counted once
  each, are listed in arrival order, so the two orders of the same two lines print different
  summaries.
\<close>

theorem summary_order_depends_on_arrival:
  "mset [''C1|ENG|P|L1|PF|S1|Y|A1||||SNOMEDCT_US|PT|100|x|0|N'',
         ''C2|ENG|P|L2|PF|S2|Y|A2||||LNC|LN|200|y|0|N''] =
   mset [''C2|ENG|P|L2|PF|S2|Y|A2||||LNC|LN|200|y|0|N'',
         ''C1|ENG|P|L1|PF|S1|Y|A1||||SNOMEDCT_US|PT|100|x|0|N'']
   \<and> map_sum id report (processConcepts
         [''C1|ENG|P|L1|PF|S1|Y|A1||||SNOMEDCT_US|PT|100|x|0|N'',
          ''C2|ENG|P|L2|PF|S2|Y|A2||||LNC|LN|200|y|0|N''])
       = Inr \<lparr>totalProcessed = 2, totalSkipped = 0,
              perSystem = [(''http://snomed.info/sct'', 1), (''http://loinc.org'', 1)]\<rparr>
   \<and> map_sum id report (processConcepts
         [''C2|ENG|P|L2|PF|S2|Y|A2||||LNC|LN|200|y|0|N'',
          ''C1|ENG|P|L1|PF|S1|Y|A1||||SNOMEDCT_US|PT|100|x|0|N''])
       = Inr \<lparr>totalProcessed = 2, totalSkipped = 0,
              perSystem = [(''http://loinc.org'', 1), (''http://snomed.info/sct'', 1)]\<rparr>
   \<and> map_sum id p_report (processProperties (\<lambda>sys. sys) exampleResource
         [''C1|L1|S1|A1|AUI|1234-5|AT1||LOINC_COMPONENT|LNC|Glucose|N'',
          ''C1|L1|S1|A1|AUI|1234-5|AT1||LOINC_COMPONENT|LNC|Glucose|N'',
          ''C2|L2|S2|A2|AUI|100|AT3||COMPONENT|SNOMEDCT_US|x|N''])
       = Inr \<lparr>propertiesFound = 3, propertiesSkipped = 0,
              perProperty = [(''http://snomed.info/sct|COMPONENT'', 1),
                             (''http://loinc.org|COMPONENT'', 2)]\<rparr>
   \<and> (\<forall>ck :: string \<Rightarrow> string.
        map_sum id p_report (processProperties ck exampleResource
          [''C1|L1|S1|A1|AUI|1234-5|AT1||LOINC_COMPONENT|LNC|Glucose|N'',
           ''C1|L1|S1|A1|AUI|1234-5|AT2||parent|LNC|LP1|N''])
        = Inr \<lparr>propertiesFound = 2, propertiesSkipped = 0,
               perProperty = [(''http://loinc.org|COMPONENT'', 1),
                              (''http://loinc.org|parent'', 1)]\<rparr>
      \<and> map_sum id p_report (processProperties ck exampleResource
          [''C1|L1|S1|A1|AUI|1234-5|AT2||parent|LNC|LP1|N'',
           ''C1|L1|S1|A1|AUI|1234-5|AT1||LOINC_COMPONENT|LNC|Glucose|N''])
        = Inr \<lparr>propertiesFound = 2, propertiesSkipped = 0,
               perProperty = [(''http://loinc.org|parent'', 1),
                              (''http://loinc.org|COMPONENT'', 1)]\<rparr>
      \<and> map_sum id p_report (processRelationships ck Map.empty
          [''A1'' \<mapsto> new_UmlsConcept ''C1|ENG|P|L1|PF|S1|Y|A1||||SNOMEDCT_US|PT|100|x|0|N'',
           ''A2'' \<mapsto> new_UmlsConcept ''C2|ENG|P|L2|PF|S2|Y|A2||||SNOMEDCT_US|PT|200|y|0|N'']
          exampleResource
          [''C1|A1|AUI|PAR|C2|A2|AUI||R1||SNOMEDCT_US|SNOMEDCT_US|||N'',
           ''C2|A2|AUI|CHD|C1|A1|AUI||R2||SNOMEDCT_US|SNOMEDCT_US|||N''])
        = Inr \<lparr>propertiesFound = 2, propertiesSkipped = 0,
               perProperty = [(''http://snomed.info/sct|parent (PAR/)'', 1),
                              (''http://snomed.info/sct|child (CHD/)'', 1)]\<rparr>
      \<and> map_sum id p_report (processRelationships ck Map.empty
          [''A1'' \<mapsto> new_UmlsConcept ''C1|ENG|P|L1|PF|S1|Y|A1||||SNOMEDCT_US|PT|100|x|0|N'',
           ''A2'' \<mapsto> new_UmlsConcept ''C2|ENG|P|L2|PF|S2|Y|A2||||SNOMEDCT_US|PT|200|y|0|N'']
          exampleResource
          [''C2|A2|AUI|CHD|C1|A1|AUI||R2||SNOMEDCT_US|SNOMEDCT_US|||N'',
           ''C1|A1|AUI|PAR|C2|A2|AUI||R1||SNOMEDCT_US|SNOMEDCT_US|||N''])
        = Inr \<lparr>propertiesFound = 2, propertiesSkipped = 0,
               perProperty = [(''http://snomed.info/sct|child (CHD/)'', 1),
                              (''http://snomed.info/sct|parent (PAR/)'', 1)]\<rparr>)"
proof -
  have 1: "map_sum id report (processConcepts
         [''C1|ENG|P|L1|PF|S1|Y|A1||||SNOMEDCT_US|PT|100|x|0|N'',
          ''C2|ENG|P|L2|PF|S2|Y|A2||||LNC|LN|200|y|0|N''])
       = Inr \<lparr>totalProcessed = 2, totalSkipped = 0,
              perSystem = [(''http://snomed.info/sct'', 1), (''http://loinc.org'', 1)]\<rparr>"
    by (simp add: run_defs)
  have 2: "map_sum id report (processConcepts
         [''C2|ENG|P|L2|PF|S2|Y|A2||||LNC|LN|200|y|0|N'',
          ''C1|ENG|P|L1|PF|S1|Y|A1||||SNOMEDCT_US|PT|100|x|0|N''])
       = Inr \<lparr>totalProcessed = 2, totalSkipped = 0,
              perSystem = [(''http://loinc.org'', 1), (''http://snomed.info/sct'', 1)]\<rparr>"
    by (simp add: run_defs)
  have 3: "map_sum id p_report (processProperties (\<lambda>sys. sys) exampleResource
         [''C1|L1|S1|A1|AUI|1234-5|AT1||LOINC_COMPONENT|LNC|Glucose|N'',
          ''C1|L1|S1|A1|AUI|1234-5|AT1||LOINC_COMPONENT|LNC|Glucose|N'',
          ''C2|L2|S2|A2|AUI|100|AT3||COMPONENT|SNOMEDCT_US|x|N''])
       = Inr \<lparr>propertiesFound = 3, propertiesSkipped = 0,
              perProperty = [(''http://snomed.info/sct|COMPONENT'', 1),
                             (''http://loinc.org|COMPONENT'', 2)]\<rparr>"
    by (simp add: summary_run_defs property_run_defs)
  have 4: "map_sum id p_report (processProperties ck exampleResource
          [''C1|L1|S1|A1|AUI|1234-5|AT1||LOINC_COMPONENT|LNC|Glucose|N'',
           ''C1|L1|S1|A1|AUI|1234-5|AT2||parent|LNC|LP1|N''])
        = Inr \<lparr>propertiesFound = 2, propertiesSkipped = 0,
               perProperty = [(''http://loinc.org|COMPONENT'', 1),
                              (''http://loinc.org|parent'', 1)]\<rparr>"
    for ck :: "string \<Rightarrow> string"
    by (simp add: summary_run_defs property_run_defs)
  have 5: "map_sum id p_report (processProperties ck exampleResource
          [''C1|L1|S1|A1|AUI|1234-5|AT2||parent|LNC|LP1|N'',
           ''C1|L1|S1|A1|AUI|1234-5|AT1||LOINC_COMPONENT|LNC|Glucose|N''])
        = Inr \<lparr>propertiesFound = 2, propertiesSkipped = 0,
               perProperty = [(''http://loinc.org|parent'', 1),
                              (''http://loinc.org|COMPONENT'', 1)]\<rparr>"
    for ck :: "string \<Rightarrow> string"
    by (simp add: summary_run_defs property_run_defs)
  have 6: "map_sum id p_report (processRelationships ck Map.empty
          [''A1'' \<mapsto> new_UmlsConcept ''C1|ENG|P|L1|PF|S1|Y|A1||||SNOMEDCT_US|PT|100|x|0|N'',
           ''A2'' \<mapsto> new_UmlsConcept ''C2|ENG|P|L2|PF|S2|Y|A2||||SNOMEDCT_US|PT|200|y|0|N'']
          exampleResource
          [''C1|A1|AUI|PAR|C2|A2|AUI||R1||SNOMEDCT_US|SNOMEDCT_US|||N'',
           ''C2|A2|AUI|CHD|C1|A1|AUI||R2||SNOMEDCT_US|SNOMEDCT_US|||N''])
        = Inr \<lparr>propertiesFound = 2, propertiesSkipped = 0,
               perProperty = [(''http://snomed.info/sct|parent (PAR/)'', 1),
                              (''http://snomed.info/sct|child (CHD/)'', 1)]\<rparr>"
    for ck :: "string \<Rightarrow> string"
    by (simp add: summary_run_defs relationship_run_defs new_UmlsConcept_def)
  have 7: "map_sum id p_report (processRelationships ck Map.empty
          [''A1'' \<mapsto> new_UmlsConcept ''C1|ENG|P|L1|PF|S1|Y|A1||||SNOMEDCT_US|PT|100|x|0|N'',
           ''A2'' \<mapsto> new_UmlsConcept ''C2|ENG|P|L2|PF|S2|Y|A2||||SNOMEDCT_US|PT|200|y|0|N'']
          exampleResource
          [''C2|A2|AUI|CHD|C1|A1|AUI||R2||SNOMEDCT_US|SNOMEDCT_US|||N'',
           ''C1|A1|AUI|PAR|C2|A2|AUI||R1||SNOMEDCT_US|SNOMEDCT_US|||N''])
        = Inr \<lparr>propertiesFound = 2, propertiesSkipped = 0,
               perProperty = [(''http://snomed.info/sct|child (CHD/)'', 1),
                              (''http://snomed.info/sct|parent (PAR/)'', 1)]\<rparr>"
    for ck :: "string \<Rightarrow> string"
    by (simp add: summary_run_defs relationship_run_defs new_UmlsConcept_def)
  show ?thesis using 1 2 3 4 5 6 7 by simp
qed

end
